theory Spec2Isabelle
  imports Main "HOL-Library.Word" "HOL-Library.Multiset"
begin

unbundle bit_operations_syntax

section \<open>The tag store of jvmtiTagMap.cpp\<close>

text \<open>
  An \<open>oop\<close> is the address of a heap object and a tag is a \<open>jlong\<close>; both are 64-bit
  words (the model is the \<open>_LP64\<close> build). The tag is only ever compared with 0 and with
  other tags, so its sign does not matter.
\<close>

type_synonym oop = "64 word"
type_synonym jlong = "64 word"

subsection \<open>JvmtiTagHashmapEntry\<close>

text \<open>
  An entry holds the tagged object and the tag. Its \<open>_next\<close> pointer is the list structure
  of the chain that holds it: a chain is the list of its entries from the bucket head on.
\<close>

record JvmtiTagHashmapEntry =
  object :: oop
  tag :: jlong

type_synonym chain = "JvmtiTagHashmapEntry list"

subsection \<open>JvmtiTagHashmap\<close>

text \<open>
  The possible table sizes, ended by -1 as in the source.
\<close>

definition sizes :: "int list" where
  "sizes = [4801, 76831, 307261, 614563, 1228891, 2457733, 4915219, 9830479,
            19660831, 39321619, 78643219, -1]"

text \<open>
  The fields of the hashmap. \<open>size_hm\<close> is \<open>_size\<close> and \<open>table\<close> is the array \<open>_table\<close>
  of bucket heads, one chain per bucket. The float \<open>_load_factor\<close> is only ever used in
  the product \<open>(int)(_load_factor * _size)\<close>; the field \<open>load_factor\<close> is that product as a
  function of the size, so that no property depends on how the float product rounds.
  \<open>default_load_factor\<close> below is the function for the default factor \<open>4.0f\<close>.
\<close>

record JvmtiTagHashmap =
  size_hm :: nat
  size_index :: nat
  entry_count :: int
  load_factor :: "nat \<Rightarrow> int"
  resize_threshold :: int
  resizing_enabled :: bool
  trace_threshold :: int
  table :: "chain list"

definition small_trace_threshold :: int where "small_trace_threshold = 10000"
definition medium_trace_threshold :: int where "medium_trace_threshold = 100000"
definition large_trace_threshold :: int where "large_trace_threshold = 1000000"
definition initial_trace_threshold :: int where "initial_trace_threshold = small_trace_threshold"

text \<open>
  \<open>init\<close>: the table of \<open>_sizes[size_index]\<close> empty buckets. When the allocation of the
  table fails the VM exits (\<open>vm_exit_out_of_memory\<close>): the result is \<open>None\<close>.
  \<open>TraceJVMTIObjectTagging\<close> is the VM flag of that name.
\<close>

definition hashmap_init :: "bool \<Rightarrow> bool \<Rightarrow> nat \<Rightarrow> (nat \<Rightarrow> int) \<Rightarrow> JvmtiTagHashmap option" where
  "hashmap_init TraceJVMTIObjectTagging malloc_ok sz_index lf =
     (let initial_size = nat (sizes ! sz_index) in
      if \<not> malloc_ok then None
      else Some \<lparr> size_hm = initial_size,
                  size_index = sz_index,
                  entry_count = 0,
                  load_factor = lf,
                  resize_threshold = lf initial_size,
                  resizing_enabled = True,
                  trace_threshold = (if TraceJVMTIObjectTagging then initial_trace_threshold else -1),
                  table = replicate initial_size [] \<rparr>)"

text \<open>
  \<open>hash(key, size)\<close>: the address is cut to an \<open>unsigned int\<close>, shifted right by 3 and
  reduced modulo the size.
\<close>

definition hash :: "oop \<Rightarrow> nat \<Rightarrow> nat" where
  "hash key sz = unat (drop_bit 3 (ucast key :: 32 word)) mod sz"

text \<open>
  \<open>resize\<close>: the rehash loop visits the buckets in index order and each chain from its
  head, and links every entry at the head of its bucket in the new table.
\<close>

definition link_at_head :: "nat \<Rightarrow> chain list \<Rightarrow> JvmtiTagHashmapEntry \<Rightarrow> chain list" where
  "link_at_head sz tbl entry =
     (let h = hash (object entry) sz in tbl[h := entry # tbl ! h])"

definition buckets :: "JvmtiTagHashmap \<Rightarrow> chain list" where
  "buckets hm = map (\<lambda>i. table hm ! i) [0..<size_hm hm]"

definition rehash :: "JvmtiTagHashmap \<Rightarrow> nat \<Rightarrow> chain list" where
  "rehash hm new_size =
     foldl (link_at_head new_size) (replicate new_size []) (concat (buckets hm))"

definition hashmap_resize :: "bool \<Rightarrow> JvmtiTagHashmap \<Rightarrow> JvmtiTagHashmap" where
  "hashmap_resize malloc_ok hm =
     (let new_size_index = size_index hm + 1;
          new_size = sizes ! new_size_index
      in if new_size < 0 then hm
         else if \<not> malloc_ok then hm\<lparr>resizing_enabled := False\<rparr>
         else hm\<lparr> table := rehash hm (nat new_size),
                  size_index := new_size_index,
                  size_hm := nat new_size,
                  resize_threshold := load_factor hm (nat new_size) \<rparr>)"

text \<open>\<open>find\<close>: the first entry of the key's chain that holds the key.\<close>

definition hashmap_find :: "JvmtiTagHashmap \<Rightarrow> oop \<Rightarrow> JvmtiTagHashmapEntry option" where
  "hashmap_find hm key =
     List.find (\<lambda>entry. object entry = key) (table hm ! hash key (size_hm hm))"

definition compute_next_trace_threshold :: "JvmtiTagHashmap \<Rightarrow> JvmtiTagHashmap" where
  "compute_next_trace_threshold hm =
     (if trace_threshold hm < medium_trace_threshold
      then hm\<lparr>trace_threshold := trace_threshold hm + small_trace_threshold\<rparr>
      else if trace_threshold hm < large_trace_threshold
      then hm\<lparr>trace_threshold := trace_threshold hm + medium_trace_threshold\<rparr>
      else hm\<lparr>trace_threshold := trace_threshold hm + large_trace_threshold\<rparr>)"

text \<open>
  \<open>add\<close>: the entry becomes the head of its chain (both branches on \<open>anchor\<close> do that),
  the count goes up, the trace threshold moves when it is reached, and the table is
  resized when the count exceeds the threshold and resizing is enabled.
\<close>

definition hashmap_add :: "bool \<Rightarrow> oop \<Rightarrow> JvmtiTagHashmapEntry \<Rightarrow> JvmtiTagHashmap \<Rightarrow> JvmtiTagHashmap" where
  "hashmap_add malloc_ok key entry hm =
     (let h = hash key (size_hm hm);
          hm1 = hm\<lparr> table := (table hm)[h := entry # table hm ! h],
                    entry_count := entry_count hm + 1 \<rparr>;
          hm2 = (if trace_threshold hm1 > 0 \<and> entry_count hm1 \<ge> trace_threshold hm1
                 then compute_next_trace_threshold hm1 else hm1)
      in if entry_count hm2 > resize_threshold hm2 \<and> resizing_enabled hm2
         then hashmap_resize malloc_ok hm2 else hm2)"

text \<open>
  \<open>remove(key)\<close>: the first entry of the chain that holds the key is unlinked and
  returned; without one the table is left as it is.
\<close>

fun unlink :: "oop \<Rightarrow> chain \<Rightarrow> chain" where
  "unlink key [] = []"
| "unlink key (entry # rest) = (if key = object entry then rest else entry # unlink key rest)"

definition hashmap_remove :: "oop \<Rightarrow> JvmtiTagHashmap \<Rightarrow> JvmtiTagHashmapEntry option \<times> JvmtiTagHashmap" where
  "hashmap_remove key hm =
     (let h = hash key (size_hm hm) in
      case List.find (\<lambda>entry. key = object entry) (table hm ! h) of
        None \<Rightarrow> (None, hm)
      | Some entry \<Rightarrow>
          (Some entry, hm\<lparr> table := (table hm)[h := unlink key (table hm ! h)],
                           entry_count := entry_count hm - 1 \<rparr>))"

text \<open>
  \<open>entry->set_tag(tag)\<close> on the entry that \<open>find(key)\<close> returned: the entry is a node of
  the key's chain, and the store changes that node where it stands.
\<close>

fun set_tag_in_chain :: "oop \<Rightarrow> jlong \<Rightarrow> chain \<Rightarrow> chain" where
  "set_tag_in_chain key t [] = []"
| "set_tag_in_chain key t (entry # rest) =
     (if object entry = key then entry\<lparr>tag := t\<rparr> # rest
      else entry # set_tag_in_chain key t rest)"

definition entry_set_tag :: "oop \<Rightarrow> jlong \<Rightarrow> JvmtiTagHashmap \<Rightarrow> JvmtiTagHashmap" where
  "entry_set_tag key t hm =
     (let h = hash key (size_hm hm) in
      hm\<lparr> table := (table hm)[h := set_tag_in_chain key t (table hm ! h)] \<rparr>)"

subsection \<open>JvmtiTagMap\<close>

text \<open>
  The tag map owns the hashmap and the free list of retired entries.
  \<open>max_free_entries\<close> is the class constant of that name; its declaration is in the
  header, so it is kept as a field and every property holds for each value of it.
\<close>

record JvmtiTagMap =
  hashmap :: JvmtiTagHashmap
  free_entries :: chain
  free_entries_count :: int
  max_free_entries :: int

definition JvmtiTagMap_new :: "bool \<Rightarrow> bool \<Rightarrow> (nat \<Rightarrow> int) \<Rightarrow> int \<Rightarrow> JvmtiTagMap option" where
  "JvmtiTagMap_new TraceJVMTIObjectTagging malloc_ok lf max_free =
     (case hashmap_init TraceJVMTIObjectTagging malloc_ok 0 lf of
        None \<Rightarrow> None
      | Some hm \<Rightarrow> Some \<lparr> hashmap = hm, free_entries = [], free_entries_count = 0,
                          max_free_entries = max_free \<rparr>)"

text \<open>
  \<open>create_entry\<close> takes the head of the free list when there is one and initialises it,
  else allocates an entry; either way the entry holds the object and the tag.
\<close>

definition create_entry :: "oop \<Rightarrow> jlong \<Rightarrow> JvmtiTagMap \<Rightarrow> JvmtiTagHashmapEntry \<times> JvmtiTagMap" where
  "create_entry ref t m =
     (case free_entries m of
        [] \<Rightarrow> (\<lparr>object = ref, tag = t\<rparr>, m)
      | entry # rest \<Rightarrow>
          (entry\<lparr>object := ref, tag := t\<rparr>,
           m\<lparr>free_entries_count := free_entries_count m - 1, free_entries := rest\<rparr>))"

definition destroy_entry :: "JvmtiTagHashmapEntry \<Rightarrow> JvmtiTagMap \<Rightarrow> JvmtiTagMap" where
  "destroy_entry entry m =
     (if free_entries_count m \<ge> max_free_entries m then m
      else m\<lparr>free_entries := entry # free_entries m,
             free_entries_count := free_entries_count m + 1\<rparr>)"

definition tag_for :: "JvmtiTagMap \<Rightarrow> oop \<Rightarrow> jlong" where
  "tag_for tag_map ob =
     (case hashmap_find (hashmap tag_map) ob of None \<Rightarrow> 0 | Some entry \<Rightarrow> tag entry)"

text \<open>
  What this file asks of the object model, which is not part of it: the class of an
  object, the class of \<open>java.lang.Class\<close>, whether a mirror is that of a primitive type,
  the class a mirror stands for, whether an object is a class, the mirror of a class,
  whether an object is an array and the length of an array.
\<close>

record object_model =
  klass :: "oop \<Rightarrow> oop"
  Class_klass :: oop
  is_primitive :: "oop \<Rightarrow> bool"
  as_klassOop :: "oop \<Rightarrow> oop"
  is_klass :: "oop \<Rightarrow> bool"
  java_mirror :: "oop \<Rightarrow> oop"
  is_array :: "oop \<Rightarrow> bool"
  array_length :: "oop \<Rightarrow> 32 word"

definition klassOop_if_java_lang_Class :: "object_model \<Rightarrow> oop \<Rightarrow> oop" where
  "klassOop_if_java_lang_Class om ob =
     (if klass om ob = Class_klass om
      then (if \<not> is_primitive om ob then as_klassOop om ob else ob)
      else ob)"

text \<open>
  \<open>set_tag\<close> and \<open>get_tag\<close>, after the handle is resolved to the object \<open>ob\<close>.
  \<open>malloc_ok\<close> says whether the allocation of a larger table succeeds, should this call
  resize the table.
\<close>

definition set_tag :: "object_model \<Rightarrow> bool \<Rightarrow> oop \<Rightarrow> jlong \<Rightarrow> JvmtiTagMap \<Rightarrow> JvmtiTagMap" where
  "set_tag om malloc_ok ob t m =
     (let key = klassOop_if_java_lang_Class om ob in
      case hashmap_find (hashmap m) key of
        None \<Rightarrow>
          if t \<noteq> 0
          then (let (entry, m1) = create_entry key t m
                in m1\<lparr>hashmap := hashmap_add malloc_ok key entry (hashmap m1)\<rparr>)
          else m
      | Some entry \<Rightarrow>
          if t = 0
          then (let (removed, hm1) = hashmap_remove key (hashmap m)
                in destroy_entry entry (m\<lparr>hashmap := hm1\<rparr>))
          else m\<lparr>hashmap := entry_set_tag key t (hashmap m)\<rparr>)"

definition get_tag :: "object_model \<Rightarrow> JvmtiTagMap \<Rightarrow> oop \<Rightarrow> jlong" where
  "get_tag om m ob = tag_for m (klassOop_if_java_lang_Class om ob)"

subsection \<open>Well-formed tables\<close>

definition entries :: "JvmtiTagHashmap \<Rightarrow> chain" where
  "entries hm = concat (table hm)"

definition wf_hashmap :: "JvmtiTagHashmap \<Rightarrow> bool" where
  "wf_hashmap hm \<longleftrightarrow>
     0 < size_hm hm \<and> length (table hm) = size_hm hm \<and>
     size_index hm < 11 \<and> int (size_hm hm) = sizes ! size_index hm \<and>
     (\<forall>i < size_hm hm. \<forall>e \<in> set (table hm ! i). hash (object e) (size_hm hm) = i) \<and>
     (\<forall>e \<in> set (entries hm). tag e \<noteq> 0) \<and>
     distinct (map object (entries hm)) \<and>
     entry_count hm = int (length (entries hm))"

definition wf_map :: "JvmtiTagMap \<Rightarrow> bool" where
  "wf_map m \<longleftrightarrow> wf_hashmap (hashmap m)"

subsection \<open>Sequences of set_tag calls\<close>

text \<open>
  A call is the object, the tag and whether the table allocation succeeds should the call
  resize. \<open>most_recent\<close> is the reading of the specification: the tag of the last call
  made for the object, if there was one.
\<close>

type_synonym set_tag_call = "oop \<times> jlong \<times> bool"

fun set_tags :: "object_model \<Rightarrow> set_tag_call list \<Rightarrow> JvmtiTagMap \<Rightarrow> JvmtiTagMap" where
  "set_tags om [] m = m"
| "set_tags om ((ob, t, malloc_ok) # calls) m = set_tags om calls (set_tag om malloc_ok ob t m)"

fun most_recent :: "oop \<Rightarrow> set_tag_call list \<Rightarrow> jlong option" where
  "most_recent ob [] = None"
| "most_recent ob ((ob', t, malloc_ok) # calls) =
     (case most_recent ob calls of
        Some t' \<Rightarrow> Some t'
      | None \<Rightarrow> if ob' = ob then Some t else None)"

subsection \<open>CallbackWrapper\<close>

text \<open>
  The wrapper's fields. \<open>w_entry\<close> is the pointer \<open>_entry\<close>: \<open>None\<close> for \<open>NULL\<close>, else the
  entry that \<open>find\<close> returned, which stays the node stored under \<open>w_o\<close> until the wrapper
  is destroyed. \<open>w_obj_tag\<close> is the slot that \<open>obj_tag_p()\<close> hands to the callback.
  \<open>oop_size\<close> is \<open>o->size()\<close> in words.
\<close>

record CallbackWrapper =
  w_entry :: "JvmtiTagHashmapEntry option"
  w_o :: oop
  w_obj_size :: jlong
  w_obj_tag :: jlong
  w_klass :: oop
  w_klass_tag :: jlong

definition wordSize :: "32 word" where "wordSize = 8"

definition CallbackWrapper_new ::
  "object_model \<Rightarrow> (oop \<Rightarrow> 32 word) \<Rightarrow> JvmtiTagMap \<Rightarrow> oop \<Rightarrow> CallbackWrapper" where
  "CallbackWrapper_new om oop_size tag_map ob =
     (let ob' = klassOop_if_java_lang_Class om ob;
          entry = hashmap_find (hashmap tag_map) ob';
          k = (if ob' = ob then klass om ob' else Class_klass om)
      in \<lparr> w_entry = entry,
           w_o = ob',
           w_obj_size = scast (oop_size ob' * wordSize),
           w_obj_tag = (case entry of None \<Rightarrow> 0 | Some e \<Rightarrow> tag e),
           w_klass = k,
           w_klass_tag = tag_for tag_map k \<rparr>)"

definition post_callback_tag_update ::
  "bool \<Rightarrow> oop \<Rightarrow> JvmtiTagHashmapEntry option \<Rightarrow> jlong \<Rightarrow> JvmtiTagMap \<Rightarrow> JvmtiTagMap" where
  "post_callback_tag_update malloc_ok ob entry obj_tag m =
     (case entry of
        None \<Rightarrow>
          if obj_tag \<noteq> 0
          then (let (new_entry, m1) = create_entry ob obj_tag m
                in m1\<lparr>hashmap := hashmap_add malloc_ok ob new_entry (hashmap m1)\<rparr>)
          else m
      | Some e \<Rightarrow>
          if obj_tag = 0
          then (let (entry_removed, hm1) = hashmap_remove ob (hashmap m)
                in destroy_entry e (m\<lparr>hashmap := hm1\<rparr>))
          else if obj_tag \<noteq> tag e
          then m\<lparr>hashmap := entry_set_tag ob obj_tag (hashmap m)\<rparr>
          else m)"

definition CallbackWrapper_destroy :: "bool \<Rightarrow> CallbackWrapper \<Rightarrow> JvmtiTagMap \<Rightarrow> JvmtiTagMap" where
  "CallbackWrapper_destroy malloc_ok w m =
     post_callback_tag_update malloc_ok (w_o w) (w_entry w) (w_obj_tag w) m"

text \<open>
  One wrapper scope: the wrapper is built, the callback leaves \<open>new_tag\<close> in the tag slot,
  and the scope ends.
\<close>

definition callback_scope ::
  "object_model \<Rightarrow> (oop \<Rightarrow> 32 word) \<Rightarrow> bool \<Rightarrow> oop \<Rightarrow> jlong \<Rightarrow> JvmtiTagMap \<Rightarrow> JvmtiTagMap" where
  "callback_scope om oop_size malloc_ok ob new_tag m =
     CallbackWrapper_destroy malloc_ok
       ((CallbackWrapper_new om oop_size m ob)\<lparr>w_obj_tag := new_tag\<rparr>) m"

subsection \<open>TwoOopCallbackWrapper\<close>

text \<open>
  The wrapper for a reference from \<open>referrer\<close> to an object. For a reference to itself
  \<open>referrer_tag_p()\<close> is \<open>obj_tag_p()\<close>: there is one slot, \<open>w_obj_tag\<close> of the base, and the
  fields of the referrer are not set.
\<close>

record TwoOopCallbackWrapper =
  base :: CallbackWrapper
  is_reference_to_self :: bool
  referrer_entry :: "JvmtiTagHashmapEntry option"
  referrer_o :: oop
  referrer_obj_tag :: jlong
  referrer_klass_tag :: jlong

definition TwoOopCallbackWrapper_new ::
  "object_model \<Rightarrow> (oop \<Rightarrow> 32 word) \<Rightarrow> JvmtiTagMap \<Rightarrow> oop \<Rightarrow> oop \<Rightarrow> TwoOopCallbackWrapper" where
  "TwoOopCallbackWrapper_new om oop_size tag_map referrer ob =
     (let b = CallbackWrapper_new om oop_size tag_map ob in
      if referrer = ob
      then \<lparr> base = b, is_reference_to_self = True, referrer_entry = None,
             referrer_o = referrer, referrer_obj_tag = 0, referrer_klass_tag = w_klass_tag b \<rparr>
      else (let r = klassOop_if_java_lang_Class om referrer;
                entry = hashmap_find (hashmap tag_map) r;
                k = (if r = referrer then klass om r else Class_klass om)
            in \<lparr> base = b, is_reference_to_self = False, referrer_entry = entry,
                 referrer_o = r,
                 referrer_obj_tag = (case entry of None \<Rightarrow> 0 | Some e \<Rightarrow> tag e),
                 referrer_klass_tag = tag_for tag_map k \<rparr>))"

text \<open>
  The value behind \<open>referrer_tag_p()\<close>.
\<close>

definition referrer_tag :: "TwoOopCallbackWrapper \<Rightarrow> jlong" where
  "referrer_tag w = (if is_reference_to_self w then w_obj_tag (base w) else referrer_obj_tag w)"

text \<open>
  The destructor of the derived class runs first and commits the referrer's slot, then
  the destructor of the base commits the object's slot. Each commit may resize the table.
\<close>

definition TwoOopCallbackWrapper_destroy ::
  "bool \<Rightarrow> bool \<Rightarrow> TwoOopCallbackWrapper \<Rightarrow> JvmtiTagMap \<Rightarrow> JvmtiTagMap" where
  "TwoOopCallbackWrapper_destroy malloc_ok_referrer malloc_ok w m =
     (let m1 = (if \<not> is_reference_to_self w
                then post_callback_tag_update malloc_ok_referrer
                       (referrer_o w) (referrer_entry w) (referrer_obj_tag w) m
                else m)
      in CallbackWrapper_destroy malloc_ok (base w) m1)"

text \<open>
  The slots a callback can write: the object's and, when it is handed one, the referrer's.
  A callback's effect on the wrapper is the list of its writes, in order.
\<close>

datatype tag_slot = ObjTag | ReferrerTag

fun write_slot :: "TwoOopCallbackWrapper \<Rightarrow> tag_slot \<times> jlong \<Rightarrow> TwoOopCallbackWrapper" where
  "write_slot w (ObjTag, v) = w\<lparr>base := (base w)\<lparr>w_obj_tag := v\<rparr>\<rparr>"
| "write_slot w (ReferrerTag, v) =
     (if is_reference_to_self w then w\<lparr>base := (base w)\<lparr>w_obj_tag := v\<rparr>\<rparr>
      else w\<lparr>referrer_obj_tag := v\<rparr>)"

definition two_oop_callback_scope ::
  "object_model \<Rightarrow> (oop \<Rightarrow> 32 word) \<Rightarrow> bool \<Rightarrow> bool \<Rightarrow> oop \<Rightarrow> oop \<Rightarrow> (tag_slot \<times> jlong) list
   \<Rightarrow> JvmtiTagMap \<Rightarrow> JvmtiTagMap" where
  "two_oop_callback_scope om oop_size malloc_ok_referrer malloc_ok referrer ob writes m =
     TwoOopCallbackWrapper_destroy malloc_ok_referrer malloc_ok
       (foldl write_slot (TwoOopCallbackWrapper_new om oop_size m referrer ob) writes) m"

subsection \<open>do_weak_oops\<close>

text \<open>
  The state of one pass: the tag map, the list \<open>delayed_add\<close>, the tags posted with
  \<open>JvmtiExport::post_object_free\<close> and the objects handed to \<open>is_alive->do_object_b\<close>, both
  in call order. \<open>is_alive\<close> and \<open>f\<close> are the collector's closures: \<open>f->do_oop\<close> stores the
  object's new address into the entry.
\<close>

record weak_oops_state =
  tag_map :: JvmtiTagMap
  delayed_add :: chain
  object_free_events :: "jlong list"
  is_alive_calls :: "oop list"

definition put_table :: "chain list \<Rightarrow> weak_oops_state \<Rightarrow> weak_oops_state" where
  "put_table tbl s = s\<lparr>tag_map := (tag_map s)\<lparr>hashmap := (hashmap (tag_map s))\<lparr>table := tbl\<rparr>\<rparr>\<rparr>"

definition the_table :: "weak_oops_state \<Rightarrow> chain list" where
  "the_table s = table (hashmap (tag_map s))"

text \<open>
  The body of the inner loop at bucket \<open>pos\<close>, for the entry \<open>entry\<close> with \<open>next\<close> behind it.
  \<open>prev\<close> is the part of the chain that stays in front of the entry (the pointer \<open>prev\<close> is
  its last node, \<open>NULL\<close> when it is empty). The result is the new \<open>prev\<close> and the state,
  or \<open>None\<close> when \<open>guarantee(tag != 0)\<close> stops the VM.
\<close>

definition scan_entry ::
  "bool \<Rightarrow> (oop \<Rightarrow> bool) \<Rightarrow> (oop \<Rightarrow> oop) \<Rightarrow> nat \<Rightarrow> nat \<Rightarrow> chain \<Rightarrow> JvmtiTagHashmapEntry \<Rightarrow> chain
   \<Rightarrow> weak_oops_state \<Rightarrow> (chain \<times> weak_oops_state) option" where
  "scan_entry post_object_free is_alive f sz pos prev entry next s =
     (let s0 = s\<lparr>is_alive_calls := is_alive_calls s @ [object entry]\<rparr> in
      if \<not> is_alive (object entry) then
        (if tag entry = 0 then None
         else (let m = tag_map s0;
                   hm = (hashmap m)\<lparr> table := (table (hashmap m))[pos := prev @ next],
                                     entry_count := entry_count (hashmap m) - 1 \<rparr>;
                   m1 = destroy_entry entry (m\<lparr>hashmap := hm\<rparr>)
               in Some (prev,
                    s0\<lparr> tag_map := m1,
                        object_free_events :=
                          (if post_object_free then object_free_events s0 @ [tag entry]
                           else object_free_events s0) \<rparr>)))
      else
        (let new_oop = f (object entry);
             moved = entry\<lparr>object := new_oop\<rparr>;
             new_pos = hash new_oop sz
         in if new_pos \<noteq> pos then
              (let tbl1 = (the_table s0)[pos := prev @ next] in
               if new_pos < pos
               then Some (prev, put_table (tbl1[new_pos := moved # tbl1 ! new_pos]) s0)
               else Some (prev, (put_table tbl1 s0)\<lparr>delayed_add := moved # delayed_add s0\<rparr>))
            else Some (prev @ [moved], put_table ((the_table s0)[pos := prev @ moved # next]) s0)))"

fun scan_chain ::
  "bool \<Rightarrow> (oop \<Rightarrow> bool) \<Rightarrow> (oop \<Rightarrow> oop) \<Rightarrow> nat \<Rightarrow> nat \<Rightarrow> chain \<Rightarrow> chain
   \<Rightarrow> weak_oops_state \<Rightarrow> weak_oops_state option" where
  "scan_chain post_object_free is_alive f sz pos prev [] s = Some s"
| "scan_chain post_object_free is_alive f sz pos prev (entry # next) s =
     (case scan_entry post_object_free is_alive f sz pos prev entry next s of
        None \<Rightarrow> None
      | Some (prev', s') \<Rightarrow> scan_chain post_object_free is_alive f sz pos prev' next s')"

text \<open>The outer loop, over the bucket indices it is given, in order.\<close>

fun scan_table ::
  "bool \<Rightarrow> (oop \<Rightarrow> bool) \<Rightarrow> (oop \<Rightarrow> oop) \<Rightarrow> nat \<Rightarrow> nat list
   \<Rightarrow> weak_oops_state \<Rightarrow> weak_oops_state option" where
  "scan_table post_object_free is_alive f sz [] s = Some s"
| "scan_table post_object_free is_alive f sz (pos # rest) s =
     (case scan_chain post_object_free is_alive f sz pos [] (the_table s ! pos) s of
        None \<Rightarrow> None
      | Some s' \<Rightarrow> scan_table post_object_free is_alive f sz rest s')"

text \<open>The last loop: every entry of \<open>delayed_add\<close> is linked at the head of its bucket.\<close>

definition re_add :: "nat \<Rightarrow> weak_oops_state \<Rightarrow> weak_oops_state" where
  "re_add sz s = (put_table (foldl (link_at_head sz) (the_table s) (delayed_add s)) s)\<lparr>delayed_add := []\<rparr>"

definition do_weak_oops ::
  "bool \<Rightarrow> (oop \<Rightarrow> bool) \<Rightarrow> (oop \<Rightarrow> oop) \<Rightarrow> JvmtiTagMap \<Rightarrow> weak_oops_state option" where
  "do_weak_oops post_object_free is_alive f m =
     (let m1 = m\<lparr>hashmap := (hashmap m)\<lparr>resizing_enabled := True\<rparr>\<rparr>;
          s = \<lparr> tag_map = m1, delayed_add = [], object_free_events = [], is_alive_calls = [] \<rparr>
      in if entry_count (hashmap m1) = 0 then Some s
         else (let sz = size_hm (hashmap m1) in
               case scan_table post_object_free is_alive f sz [0..<sz] s of
                 None \<Rightarrow> None
               | Some s' \<Rightarrow> Some (re_add sz s')))"

subsection \<open>A concrete store\<close>

text \<open>
  The product \<open>(int)(4.0f * _size)\<close> of the default load factor. The size, an \<open>int\<close>, is
  converted to a \<open>float\<close>, which keeps 24 significant bits: a size of more bits is rounded to
  the nearest multiple of the power of two that is left, to the even one at a tie. The
  product with \<open>4.0f\<close> and its conversion to \<open>int\<close> are exact.
\<close>

definition round_to :: "nat \<Rightarrow> nat \<Rightarrow> nat" where
  "round_to e n =
     (let q = n div 2 ^ e; r = n mod 2 ^ e
      in (if 2 * r > 2 ^ e \<or> (2 * r = 2 ^ e \<and> odd q) then q + 1 else q) * 2 ^ e)"

definition int_to_float :: "nat \<Rightarrow> nat" where
  "int_to_float n =
     (if n < 2 ^ 24 then n
      else if n < 2 ^ 25 then round_to 1 n
      else if n < 2 ^ 26 then round_to 2 n
      else if n < 2 ^ 27 then round_to 3 n
      else if n < 2 ^ 28 then round_to 4 n
      else if n < 2 ^ 29 then round_to 5 n
      else if n < 2 ^ 30 then round_to 6 n
      else round_to 7 n)"

definition default_load_factor :: "nat \<Rightarrow> int" where
  "default_load_factor n = 4 * int (int_to_float n)"

text \<open>
  An object model without \<open>java.lang.Class\<close> mirrors, and the tag map that the constructor
  builds with the default load factor 4 and a free list of at most 4096 entries.
\<close>

definition plain_objects :: object_model where
  "plain_objects = \<lparr> klass = (\<lambda>ob. 0), Class_klass = 1, is_primitive = (\<lambda>ob. False),
                      as_klassOop = (\<lambda>ob. ob), is_klass = (\<lambda>ob. False),
                      java_mirror = (\<lambda>ob. ob), is_array = (\<lambda>ob. False),
                      array_length = (\<lambda>ob. 0) \<rparr>"

definition default_tag_map :: JvmtiTagMap where
  "default_tag_map =
     \<lparr> hashmap = \<lparr> size_hm = 4801, size_index = 0, entry_count = 0,
                    load_factor = default_load_factor, resize_threshold = 19204,
                    resizing_enabled = True, trace_threshold = -1,
                    table = replicate 4801 [] \<rparr>,
       free_entries = [], free_entries_count = 0, max_free_entries = 4096 \<rparr>"

definition two_words :: "oop \<Rightarrow> 32 word" where
  "two_words ob = 2"

text \<open>
  A store with one tagged object, the object at address 8 with tag 5, and the same store
  with a free list that holds \<open>max_free_entries\<close> retired entries.
\<close>

definition one_tag_map :: JvmtiTagMap where
  "one_tag_map =
     \<lparr> hashmap = \<lparr> size_hm = 4801, size_index = 0, entry_count = 1,
                    load_factor = default_load_factor, resize_threshold = 19204,
                    resizing_enabled = True, trace_threshold = -1,
                    table = (replicate 4801 [])[1 := [\<lparr>object = 8, tag = 5\<rparr>]] \<rparr>,
       free_entries = [], free_entries_count = 0, max_free_entries = 4096 \<rparr>"

definition full_pool_map :: JvmtiTagMap where
  "full_pool_map =
     one_tag_map\<lparr> free_entries := replicate 4096 \<lparr>object = 16, tag = 7\<rparr>,
                  free_entries_count := 4096 \<rparr>"

text \<open>A collection after which no object is alive, and one that moves no object.\<close>

definition nothing_alive :: "oop \<Rightarrow> bool" where
  "nothing_alive ob = False"

definition not_moved :: "oop \<Rightarrow> oop" where
  "not_moved ob = ob"

subsection \<open>What a pass is expected to do\<close>

text \<open>The state a pass starts from, and the entries of the table it ends with.\<close>

definition pass_start :: "JvmtiTagMap \<Rightarrow> weak_oops_state" where
  "pass_start m = \<lparr> tag_map = m\<lparr>hashmap := (hashmap m)\<lparr>resizing_enabled := True\<rparr>\<rparr>,
                    delayed_add = [], object_free_events = [], is_alive_calls = [] \<rparr>"

definition entries_after :: "weak_oops_state \<Rightarrow> chain" where
  "entries_after s = entries (hashmap (tag_map s))"



text \<open>
  The words of the specification for one pass: an entry survives when its object is alive,
  and the survivor refers to the object's new address.
\<close>

definition relocated :: "(oop \<Rightarrow> oop) \<Rightarrow> JvmtiTagHashmapEntry \<Rightarrow> JvmtiTagHashmapEntry" where
  "relocated f entry = entry\<lparr>object := f (object entry)\<rparr>"

definition survivors :: "(oop \<Rightarrow> bool) \<Rightarrow> (oop \<Rightarrow> oop) \<Rightarrow> chain \<Rightarrow> chain" where
  "survivors is_alive f c = map (relocated f) (filter (\<lambda>entry. is_alive (object entry)) c)"

definition dead_tags :: "(oop \<Rightarrow> bool) \<Rightarrow> chain \<Rightarrow> jlong list" where
  "dead_tags is_alive c = map tag (filter (\<lambda>entry. \<not> is_alive (object entry)) c)"

text \<open>
  The survivors of a chain by where they go, seen from the bucket \<open>pos\<close> that holds the
  chain: those that stay, those that go to a lower bucket and those that go to a higher.
\<close>

definition staying :: "nat \<Rightarrow> nat \<Rightarrow> chain \<Rightarrow> chain" where
  "staying sz pos c = filter (\<lambda>entry. hash (object entry) sz = pos) c"

definition going_down :: "nat \<Rightarrow> nat \<Rightarrow> chain \<Rightarrow> chain" where
  "going_down sz pos c = filter (\<lambda>entry. hash (object entry) sz < pos) c"

definition going_up :: "nat \<Rightarrow> nat \<Rightarrow> chain \<Rightarrow> chain" where
  "going_up sz pos c = filter (\<lambda>entry. pos < hash (object entry) sz) c"

text \<open>The fields of the hashmap that a pass leaves alone.\<close>

definition same_settings :: "JvmtiTagHashmap \<Rightarrow> JvmtiTagHashmap \<Rightarrow> bool" where
  "same_settings hm hm' \<longleftrightarrow>
     size_hm hm' = size_hm hm \<and> size_index hm' = size_index hm \<and>
     load_factor hm' = load_factor hm \<and> resize_threshold hm' = resize_threshold hm \<and>
     resizing_enabled hm' = resizing_enabled hm \<and> trace_threshold hm' = trace_threshold hm"

text \<open>
  The pass after the buckets below \<open>p\<close> of the table \<open>T\<close> have been scanned: the buckets
  with the entries that stay, the survivors that went to a lower bucket and those that
  wait for a higher one, both in the order of the scan, and the entries scanned so far.
\<close>

definition stay_table :: "(oop \<Rightarrow> bool) \<Rightarrow> (oop \<Rightarrow> oop) \<Rightarrow> chain list \<Rightarrow> nat \<Rightarrow> chain list" where
  "stay_table ia f T p =
     map (\<lambda>b. if b < p then staying (length T) b (survivors ia f (T ! b)) else T ! b) [0..<length T]"

definition all_down :: "(oop \<Rightarrow> bool) \<Rightarrow> (oop \<Rightarrow> oop) \<Rightarrow> chain list \<Rightarrow> nat \<Rightarrow> chain" where
  "all_down ia f T p = concat (map (\<lambda>q. going_down (length T) q (survivors ia f (T ! q))) [0..<p])"

definition all_up :: "(oop \<Rightarrow> bool) \<Rightarrow> (oop \<Rightarrow> oop) \<Rightarrow> chain list \<Rightarrow> nat \<Rightarrow> chain" where
  "all_up ia f T p = concat (map (\<lambda>q. going_up (length T) q (survivors ia f (T ! q))) [0..<p])"

definition first_buckets :: "chain list \<Rightarrow> nat \<Rightarrow> chain" where
  "first_buckets T p = concat (map (\<lambda>q. T ! q) [0..<p])"

subsection \<open>The states of the store\<close>

text \<open>
  The tag maps that the store's operations produce from a new one: \<open>set_tag\<close>, the scope of
  a \<open>CallbackWrapper\<close> or of a \<open>TwoOopCallbackWrapper\<close> around a callback that writes the
  tag slots as it likes, and a pass of \<open>do_weak_oops\<close>. The heap walk hands the wrappers
  Java objects, which the store keys apart, and the collector moves distinct live objects
  to distinct addresses.
\<close>

inductive reachable :: "object_model \<Rightarrow> (oop \<Rightarrow> 32 word) \<Rightarrow> JvmtiTagMap \<Rightarrow> bool"
  for om :: object_model and oop_size :: "oop \<Rightarrow> 32 word" where
  new: "JvmtiTagMap_new TraceJVMTIObjectTagging malloc_ok lf max_free = Some m
        \<Longrightarrow> reachable om oop_size m"
| set_tag: "reachable om oop_size m \<Longrightarrow> reachable om oop_size (set_tag om malloc_ok ob t m)"
| callback: "reachable om oop_size m
        \<Longrightarrow> reachable om oop_size (callback_scope om oop_size malloc_ok ob t m)"
| two_oop_callback: "reachable om oop_size m
        \<Longrightarrow> (referrer \<noteq> ob \<longrightarrow>
               klassOop_if_java_lang_Class om referrer \<noteq> klassOop_if_java_lang_Class om ob)
        \<Longrightarrow> reachable om oop_size
              (two_oop_callback_scope om oop_size malloc_ok_referrer malloc_ok referrer ob writes m)"
| weak_oops: "reachable om oop_size m
        \<Longrightarrow> inj_on f {ob \<in> object ` set (entries (hashmap m)). is_alive ob}
        \<Longrightarrow> do_weak_oops post_object_free is_alive f m = Some s
        \<Longrightarrow> reachable om oop_size (tag_map s)"

subsection \<open>Tables at their threshold\<close>

text \<open>
  A hashmap of the size \<open>sizes ! idx\<close> that holds as many entries as its threshold, the
  product of the default load factor: bucket \<open>i\<close> holds the objects at the addresses
  \<open>8 * (i + size * j)\<close> for \<open>j < 4\<close>, each with tag 1, and where the product is rounded down
  below four times the size, the first buckets hold the three objects for \<open>j < 3\<close>. The table
  \<open>fills\<close> for a size whose threshold lies between three and four times the size.
\<close>

definition full_object :: "nat \<Rightarrow> oop" where
  "full_object k = word_of_nat (8 * k)"

definition full_entry :: "nat \<Rightarrow> JvmtiTagHashmapEntry" where
  "full_entry k = \<lparr>object = full_object k, tag = 1\<rparr>"

definition full_chain :: "nat \<Rightarrow> nat \<Rightarrow> nat \<Rightarrow> chain" where
  "full_chain sz short i =
     (if i < short then [full_entry i, full_entry (i + sz), full_entry (i + 2 * sz)]
      else [full_entry i, full_entry (i + sz), full_entry (i + 2 * sz), full_entry (i + 3 * sz)])"

definition short_buckets :: "nat \<Rightarrow> nat" where
  "short_buckets sz = nat (4 * int sz - default_load_factor sz)"

definition full_hashmap :: "nat \<Rightarrow> JvmtiTagHashmap" where
  "full_hashmap idx =
     (let sz = nat (sizes ! idx) in
      \<lparr> size_hm = sz, size_index = idx, entry_count = default_load_factor sz,
        load_factor = default_load_factor, resize_threshold = default_load_factor sz,
        resizing_enabled = True, trace_threshold = -1,
        table = map (full_chain sz (short_buckets sz)) [0..<sz] \<rparr>)"

definition fills :: "nat \<Rightarrow> bool" where
  "fills sz = (3 * int sz \<le> default_load_factor sz \<and> default_load_factor sz \<le> 4 * int sz)"

text \<open>The table right after \<open>add\<close> has linked the entry, before it looks at the threshold.\<close>

definition linked :: "JvmtiTagHashmapEntry \<Rightarrow> JvmtiTagHashmap \<Rightarrow> chain list" where
  "linked e hm = (table hm)[hash (object e) (size_hm hm) := e # table hm ! hash (object e) (size_hm hm)]"

subsection \<open>get_objects_with_tags\<close>

text \<open>
  The collector: the requested tags (the array \<open>_tags\<close> with its \<open>_tag_count\<close> elements) and
  the two growable arrays of results. A \<open>jobject\<close> made by \<open>JNIHandles::make_local\<close> is
  modelled by the object it refers to.
\<close>

record TagObjectCollector =
  requested_tags :: "jlong list"
  object_results :: "oop list"
  tag_results :: "jlong list"

definition TagObjectCollector_new :: "jlong list \<Rightarrow> TagObjectCollector" where
  "TagObjectCollector_new tags = \<lparr> requested_tags = tags, object_results = [], tag_results = [] \<rparr>"

definition mirror_of :: "object_model \<Rightarrow> oop \<Rightarrow> oop" where
  "mirror_of om ob = (if is_klass om ob then java_mirror om ob else ob)"

text \<open>\<open>do_entry\<close>: the loop over the requested tags, one pair appended for each that matches.\<close>

fun match_tags :: "object_model \<Rightarrow> JvmtiTagHashmapEntry \<Rightarrow> jlong list \<Rightarrow> TagObjectCollector
                   \<Rightarrow> TagObjectCollector" where
  "match_tags om entry [] c = c"
| "match_tags om entry (t # ts) c =
     (if t = tag entry
      then match_tags om entry ts
             (c\<lparr> object_results := object_results c @ [mirror_of om (object entry)],
                 tag_results := tag_results c @ [tag entry] \<rparr>)
      else match_tags om entry ts c)"

definition do_entry :: "object_model \<Rightarrow> TagObjectCollector \<Rightarrow> JvmtiTagHashmapEntry \<Rightarrow> TagObjectCollector" where
  "do_entry om c entry = match_tags om entry (requested_tags c) c"

text \<open>\<open>entry_iterate\<close>: every bucket in index order, every chain from its head.\<close>

definition entry_iterate :: "object_model \<Rightarrow> JvmtiTagHashmap \<Rightarrow> TagObjectCollector \<Rightarrow> TagObjectCollector" where
  "entry_iterate om hm c = foldl (do_entry om) c (concat (buckets hm))"

text \<open>
  Modelled from the spec: \<open>JvmtiEnv::Allocate\<close> and \<open>JvmtiEnv::Deallocate\<close>, which are not
  part of this file. The specification speaks of result buffers that are allocated, of an
  allocation-error signal and of buffers that are released. The memory holds the blocks
  that \<open>Allocate\<close> handed out and that are not released, each with its size, the pointer
  variables of the caller by their addresses, and what was stored into the buffers and the
  count. \<open>Allocate\<close> either fails with the out-of-memory error and changes nothing, or
  makes a block and stores its address into the pointer variable it is given.
  \<open>Deallocate\<close> releases the block at the address it is given; an address that is no
  block is recorded in \<open>bad_frees\<close>.
\<close>

type_synonym address = "64 word"

datatype jvmtiError = JVMTI_ERROR_NONE | JVMTI_ERROR_OUT_OF_MEMORY

record native_memory =
  blocks :: "address \<rightharpoonup> nat"
  pointers :: "address \<rightharpoonup> address"
  object_buffers :: "address \<rightharpoonup> oop list"
  tag_buffers :: "address \<rightharpoonup> jlong list"
  counts :: "address \<rightharpoonup> int"
  bad_frees :: "address list"

definition Allocate :: "address option \<Rightarrow> nat \<Rightarrow> address \<Rightarrow> native_memory \<Rightarrow> jvmtiError \<times> native_memory" where
  "Allocate outcome sz mem_ptr mem =
     (case outcome of
        None \<Rightarrow> (JVMTI_ERROR_OUT_OF_MEMORY, mem)
      | Some a \<Rightarrow> (JVMTI_ERROR_NONE,
                   mem\<lparr> blocks := (blocks mem)(a \<mapsto> sz), pointers := (pointers mem)(mem_ptr \<mapsto> a) \<rparr>))"

definition Deallocate :: "address \<Rightarrow> native_memory \<Rightarrow> native_memory" where
  "Deallocate p mem =
     (if p \<in> dom (blocks mem) then mem\<lparr> blocks := (blocks mem)(p := None) \<rparr>
      else mem\<lparr> bad_frees := bad_frees mem @ [p] \<rparr>)"

text \<open>The buffer that a pointer variable points to, \<open>*ptr\<close>.\<close>

definition deref :: "native_memory \<Rightarrow> address \<Rightarrow> address" where
  "deref mem ptr = (case pointers mem ptr of Some a \<Rightarrow> a | None \<Rightarrow> 0)"

text \<open>
  \<open>result\<close>. \<open>object_result_ptr\<close> and \<open>tag_result_ptr\<close> are \<open>None\<close> for \<open>NULL\<close>, else the
  address of the caller's pointer variable. \<open>alloc1\<close> and \<open>alloc2\<close> are what the first and
  the second allocation come to. When the second allocation fails the code calls
  \<open>Deallocate\<close> on \<open>object_result_ptr\<close> itself.
\<close>

definition result ::
  "address option \<Rightarrow> address option \<Rightarrow> TagObjectCollector \<Rightarrow> address \<Rightarrow> address option \<Rightarrow> address option
   \<Rightarrow> native_memory \<Rightarrow> jvmtiError \<times> native_memory" where
  "result alloc1 alloc2 c count_ptr object_result_ptr tag_result_ptr mem =
     (let count = length (object_results c);
          first =
            (case object_result_ptr of
               None \<Rightarrow> (JVMTI_ERROR_NONE, mem)
             | Some orp \<Rightarrow>
                 (let (error, mem1) = Allocate alloc1 (count * 8) orp mem in
                  if error \<noteq> JVMTI_ERROR_NONE then (error, mem1)
                  else (JVMTI_ERROR_NONE,
                        mem1\<lparr> object_buffers :=
                                 (object_buffers mem1)(deref mem1 orp \<mapsto> object_results c) \<rparr>)))
      in if fst first \<noteq> JVMTI_ERROR_NONE then first
         else
           (let second =
              (case tag_result_ptr of
                 None \<Rightarrow> (JVMTI_ERROR_NONE, snd first)
               | Some trp \<Rightarrow>
                   (let (error, mem2) = Allocate alloc2 (count * 8) trp (snd first) in
                    if error \<noteq> JVMTI_ERROR_NONE
                    then (error, (case object_result_ptr of
                                    None \<Rightarrow> mem2
                                  | Some orp \<Rightarrow> Deallocate orp mem2))
                    else (JVMTI_ERROR_NONE,
                          mem2\<lparr> tag_buffers :=
                                   (tag_buffers mem2)(deref mem2 trp \<mapsto> tag_results c) \<rparr>)))
            in if fst second \<noteq> JVMTI_ERROR_NONE then second
               else (JVMTI_ERROR_NONE,
                     (snd second)\<lparr> counts := (counts (snd second))(count_ptr \<mapsto> int count) \<rparr>)))"

definition get_objects_with_tags ::
  "object_model \<Rightarrow> address option \<Rightarrow> address option \<Rightarrow> jlong list \<Rightarrow> address \<Rightarrow> address option
   \<Rightarrow> address option \<Rightarrow> JvmtiTagMap \<Rightarrow> native_memory \<Rightarrow> jvmtiError \<times> native_memory" where
  "get_objects_with_tags om alloc1 alloc2 tags count_ptr object_result_ptr tag_result_ptr m mem =
     result alloc1 alloc2 (entry_iterate om (hashmap m) (TagObjectCollector_new tags))
       count_ptr object_result_ptr tag_result_ptr mem"

text \<open>A memory with nothing allocated.\<close>

definition empty_memory :: native_memory where
  "empty_memory = \<lparr> blocks = Map.empty, pointers = Map.empty, object_buffers = Map.empty,
                     tag_buffers = Map.empty, counts = Map.empty, bad_frees = [] \<rparr>"

section \<open>The heap walk\<close>

subsection \<open>Object headers\<close>

text \<open>
  Modelled from the spec: the header word of an object (\<open>markOop\<close>) and its operations
  \<open>is_marked\<close>, \<open>must_be_preserved\<close>, \<open>prototype\<close>, \<open>set_marked\<close> and \<open>init_mark\<close>, which are
  not part of this file. In the words of the specification a header has one reserved bit
  that the walk borrows as its visited mark, and it may carry meaningful state (an
  identity hash, a lock record pointer); a header that carries such state must be saved
  before the object is marked. The prototype is the header with the bit clear and no
  state, and it is what \<open>init_mark\<close> stores.
\<close>

record markOop =
  mark_bit :: bool
  meaningful_state :: "64 word option"

definition prototype :: markOop where
  "prototype = \<lparr> mark_bit = False, meaningful_state = None \<rparr>"

definition set_marked :: "markOop \<Rightarrow> markOop" where
  "set_marked m = m\<lparr> mark_bit := True \<rparr>"

definition is_marked :: "markOop \<Rightarrow> bool" where
  "is_marked m = mark_bit m"

definition must_be_preserved :: "markOop \<Rightarrow> bool" where
  "must_be_preserved m = (meaningful_state m \<noteq> None)"

subsection \<open>Callbacks and contexts\<close>

text \<open>
  The enumerations of \<open>jvmti.h\<close>, with the enumerators this file uses.
\<close>

datatype jvmtiIterationControl = JVMTI_ITERATION_ABORT | JVMTI_ITERATION_CONTINUE | JVMTI_ITERATION_IGNORE

datatype jvmtiHeapReferenceKind =
    JVMTI_HEAP_REFERENCE_CLASS | JVMTI_HEAP_REFERENCE_FIELD | JVMTI_HEAP_REFERENCE_ARRAY_ELEMENT
  | JVMTI_HEAP_REFERENCE_CLASS_LOADER | JVMTI_HEAP_REFERENCE_SIGNERS
  | JVMTI_HEAP_REFERENCE_PROTECTION_DOMAIN | JVMTI_HEAP_REFERENCE_INTERFACE
  | JVMTI_HEAP_REFERENCE_STATIC_FIELD | JVMTI_HEAP_REFERENCE_CONSTANT_POOL
  | JVMTI_HEAP_REFERENCE_SUPERCLASS | JVMTI_HEAP_REFERENCE_JNI_GLOBAL
  | JVMTI_HEAP_REFERENCE_SYSTEM_CLASS | JVMTI_HEAP_REFERENCE_MONITOR
  | JVMTI_HEAP_REFERENCE_STACK_LOCAL | JVMTI_HEAP_REFERENCE_JNI_LOCAL
  | JVMTI_HEAP_REFERENCE_THREAD | JVMTI_HEAP_REFERENCE_OTHER

datatype jvmtiObjectReferenceKind =
    JVMTI_REFERENCE_CLASS | JVMTI_REFERENCE_FIELD | JVMTI_REFERENCE_ARRAY_ELEMENT
  | JVMTI_REFERENCE_CLASS_LOADER | JVMTI_REFERENCE_SIGNERS | JVMTI_REFERENCE_PROTECTION_DOMAIN
  | JVMTI_REFERENCE_INTERFACE | JVMTI_REFERENCE_STATIC_FIELD | JVMTI_REFERENCE_CONSTANT_POOL

datatype jvmtiHeapRootKind =
    JVMTI_HEAP_ROOT_JNI_GLOBAL | JVMTI_HEAP_ROOT_SYSTEM_CLASS | JVMTI_HEAP_ROOT_MONITOR
  | JVMTI_HEAP_ROOT_STACK_LOCAL | JVMTI_HEAP_ROOT_JNI_LOCAL | JVMTI_HEAP_ROOT_THREAD
  | JVMTI_HEAP_ROOT_OTHER

text \<open>
  The constants of \<open>jvmti.h\<close> whose values matter: the bits of the visit control and of the
  heap filter, and the numbers of the reference kinds, which \<open>REF_INFO_MASK\<close> shifts by. The
  header is not part of this file, so they are parameters.
\<close>

record jvmti_h =
  JVMTI_VISIT_OBJECTS :: "32 word"
  JVMTI_VISIT_ABORT :: "32 word"
  JVMTI_HEAP_FILTER_TAGGED :: "32 word"
  JVMTI_HEAP_FILTER_UNTAGGED :: "32 word"
  JVMTI_HEAP_FILTER_CLASS_TAGGED :: "32 word"
  JVMTI_HEAP_FILTER_CLASS_UNTAGGED :: "32 word"
  kind_number :: "jvmtiHeapReferenceKind \<Rightarrow> nat"

fun toJvmtiHeapRootKind :: "jvmtiHeapReferenceKind \<Rightarrow> jvmtiHeapRootKind" where
  "toJvmtiHeapRootKind JVMTI_HEAP_REFERENCE_JNI_GLOBAL = JVMTI_HEAP_ROOT_JNI_GLOBAL"
| "toJvmtiHeapRootKind JVMTI_HEAP_REFERENCE_SYSTEM_CLASS = JVMTI_HEAP_ROOT_SYSTEM_CLASS"
| "toJvmtiHeapRootKind JVMTI_HEAP_REFERENCE_MONITOR = JVMTI_HEAP_ROOT_MONITOR"
| "toJvmtiHeapRootKind JVMTI_HEAP_REFERENCE_STACK_LOCAL = JVMTI_HEAP_ROOT_STACK_LOCAL"
| "toJvmtiHeapRootKind JVMTI_HEAP_REFERENCE_JNI_LOCAL = JVMTI_HEAP_ROOT_JNI_LOCAL"
| "toJvmtiHeapRootKind JVMTI_HEAP_REFERENCE_THREAD = JVMTI_HEAP_ROOT_THREAD"
| "toJvmtiHeapRootKind _ = JVMTI_HEAP_ROOT_OTHER"

text \<open>
  What a callback is told and what it answers. A basic callback gets the tag of the object
  through \<open>tag_ptr\<close> and answers with a \<open>jvmtiIterationControl\<close>; the report holds its other
  arguments together with the value of the slot at the call, and the answer holds the value
  it leaves in the slot. The heap reference callback of an advanced walk answers with its
  flags and the writes it makes through \<open>tag_ptr\<close> and \<open>referrer_tag_ptr\<close>, in order; the
  callbacks for primitive values have the one slot. Every callback also works on the
  agent's own data, of type \<open>'u\<close>.
\<close>

record heap_root_report =
  hr_kind :: jvmtiHeapRootKind
  hr_class_tag :: jlong
  hr_size :: jlong
  hr_tag :: jlong

record stack_reference_report =
  sr_kind :: jvmtiHeapRootKind
  sr_class_tag :: jlong
  sr_size :: jlong
  sr_tag :: jlong
  sr_thread_tag :: jlong
  sr_depth :: "32 word"
  sr_method :: "64 word"
  sr_slot :: "32 word"

record object_reference_report =
  or_kind :: jvmtiObjectReferenceKind
  or_class_tag :: jlong
  or_size :: jlong
  or_tag :: jlong
  or_referrer_tag :: jlong
  or_index :: "32 word"

datatype jvmtiHeapReferenceInfo =
    Field_info "32 word"
  | Stack_local_info jlong jlong "32 word" "64 word" jlong "32 word"

record heap_reference_report =
  r_kind :: jvmtiHeapReferenceKind
  r_info :: "jvmtiHeapReferenceInfo option"
  r_class_tag :: jlong
  r_referrer_class_tag :: jlong
  r_size :: jlong
  r_tag :: jlong
  r_referrer_tag :: "jlong option"
  r_length :: "32 word"

text \<open>
  A report of primitive values: of a field (with its kind and index), of a string or of
  a primitive array. The values themselves are those of the object \<open>p_object\<close>.
\<close>

record primitive_report =
  p_field :: "(jvmtiHeapReferenceKind \<times> 32 word) option"
  p_class_tag :: jlong
  p_size :: jlong
  p_tag :: jlong
  p_object :: oop

type_synonym 'u jvmtiHeapRootCallback =
  "heap_root_report \<Rightarrow> 'u \<Rightarrow> jvmtiIterationControl \<times> jlong \<times> 'u"

type_synonym 'u jvmtiStackReferenceCallback =
  "stack_reference_report \<Rightarrow> 'u \<Rightarrow> jvmtiIterationControl \<times> jlong \<times> 'u"

type_synonym 'u jvmtiObjectReferenceCallback =
  "object_reference_report \<Rightarrow> 'u \<Rightarrow> jvmtiIterationControl \<times> jlong \<times> 'u"

type_synonym 'u jvmtiHeapReferenceCallback =
  "heap_reference_report \<Rightarrow> 'u \<Rightarrow> 32 word \<times> (tag_slot \<times> jlong) list \<times> 'u"

type_synonym 'u primitive_value_callback =
  "primitive_report \<Rightarrow> 'u \<Rightarrow> 32 word \<times> jlong \<times> 'u"

record 'u BasicHeapWalkContext =
  heap_root_callback :: "'u jvmtiHeapRootCallback option"
  stack_ref_callback :: "'u jvmtiStackReferenceCallback option"
  object_ref_callback :: "'u jvmtiObjectReferenceCallback option"

record 'u AdvancedHeapWalkContext =
  heap_filter :: "32 word"
  klass_filter :: "oop option"
  heap_reference_callback :: "'u jvmtiHeapReferenceCallback option"
  primitive_field_callback :: "'u primitive_value_callback option"
  array_primitive_value_callback :: "'u primitive_value_callback option"
  string_primitive_value_callback :: "'u primitive_value_callback option"

subsection \<open>The state of a walk\<close>

text \<open>
  The state that a walk works on: the tag map, the visit stack with its top at the head,
  the headers of the objects of the heap, the two stacks of saved headers, the headers
  that \<open>BiasedLocking::preserve_marks\<close> has put aside, the list of the classes that cache a
  field map (\<open>None\<close> for \<open>NULL\<close>) with the classes that hold one, the one-entry referrer cache
  of the basic context, the agent's data, and the calls made so far to the object reference
  callback and to the heap reference callback.
\<close>

record 'u heap_walk =
  walk_tags :: JvmtiTagMap
  visit_stack :: "oop list"
  headers :: "oop \<Rightarrow> markOop"
  saved_oop_stack :: "oop list"
  saved_mark_stack :: "markOop list"
  preserved_marks :: "(oop \<times> markOop) list"
  class_list :: "oop list option"
  jvmti_cached_class_field_map :: "oop \<Rightarrow> bool"
  last_referrer :: oop
  last_referrer_tag :: jlong
  user_data :: 'u
  object_reference_reports :: "object_reference_report list"
  heap_reference_reports :: "heap_reference_report list"

subsection \<open>ObjectMarker\<close>

text \<open>
  What \<open>ObjectMarker\<close> asks of the VM, none of it part of this file: the flags
  \<open>UseBiasedLocking\<close> and \<open>UseSharedSpaces\<close>, the functions \<open>BiasedLocking::preserve_marks\<close> and
  \<open>BiasedLocking::restore_marks\<close>, and the objects that the two iterations of \<open>done\<close> hand to
  the closure, the one over the heap and the one over the read-write space. They are
  parameters. \<open>preserve_marks\<close> is given by the headers it puts aside, which it reads from the
  headers of the heap at the call; \<open>restore_marks\<close> by what it makes of the headers of the heap
  with what was put aside.
\<close>

record vm_services =
  UseBiasedLocking :: bool
  BiasedLocking_preserve_marks :: "(oop \<Rightarrow> markOop) \<Rightarrow> (oop \<times> markOop) list"
  BiasedLocking_restore_marks :: "(oop \<times> markOop) list \<Rightarrow> (oop \<Rightarrow> markOop) \<Rightarrow> (oop \<Rightarrow> markOop)"
  UseSharedSpaces :: bool
  heap_object_iterate :: "oop \<Rightarrow> bool"
  rw_space_object_iterate :: "oop \<Rightarrow> bool"







definition visited :: "'u heap_walk \<Rightarrow> oop \<Rightarrow> bool" where
  "visited w ob = is_marked (headers w ob)"

definition check_for_visit :: "oop \<Rightarrow> 'u heap_walk \<Rightarrow> 'u heap_walk" where
  "check_for_visit obj w =
     (if \<not> visited w obj then w\<lparr> visit_stack := obj # visit_stack w \<rparr> else w)"

subsection \<open>JvmtiCachedClassFieldMap\<close>




subsection \<open>The filters\<close>

definition is_filtered_by_heap_filter :: "jvmti_h \<Rightarrow> jlong \<Rightarrow> jlong \<Rightarrow> 32 word \<Rightarrow> bool" where
  "is_filtered_by_heap_filter J obj_tag klass_tag heap_filter_bits =
     (if obj_tag \<noteq> 0 \<and> heap_filter_bits AND JVMTI_HEAP_FILTER_TAGGED J \<noteq> 0 then True
      else if obj_tag = 0 \<and> heap_filter_bits AND JVMTI_HEAP_FILTER_UNTAGGED J \<noteq> 0 then True
      else if klass_tag \<noteq> 0 \<and> heap_filter_bits AND JVMTI_HEAP_FILTER_CLASS_TAGGED J \<noteq> 0 then True
      else if klass_tag = 0 \<and> heap_filter_bits AND JVMTI_HEAP_FILTER_CLASS_UNTAGGED J \<noteq> 0 then True
      else False)"

definition is_filtered_by_klass_filter :: "object_model \<Rightarrow> oop \<Rightarrow> oop option \<Rightarrow> bool" where
  "is_filtered_by_klass_filter om obj klass_filter_handle =
     (case klass_filter_handle of None \<Rightarrow> False | Some k \<Rightarrow> klass om obj \<noteq> k)"

subsection \<open>CallbackInvoker: the basic callbacks\<close>

text \<open>
  \<open>malloc_ok\<close> says, for the tag map at the end of a wrapper's scope, whether a larger
  table can be allocated should a commit resize: first for the commit of the referrer (or
  the only commit), then for the commit of the object of a two-object wrapper.
\<close>

definition end_scope ::
  "(JvmtiTagMap \<Rightarrow> bool \<times> bool) \<Rightarrow> CallbackWrapper \<Rightarrow> 'u heap_walk \<Rightarrow> 'u heap_walk" where
  "end_scope malloc_ok wrapper w =
     w\<lparr> walk_tags := CallbackWrapper_destroy (fst (malloc_ok (walk_tags w))) wrapper (walk_tags w) \<rparr>"

definition end_two_oop_scope ::
  "(JvmtiTagMap \<Rightarrow> bool \<times> bool) \<Rightarrow> TwoOopCallbackWrapper \<Rightarrow> 'u heap_walk \<Rightarrow> 'u heap_walk" where
  "end_two_oop_scope malloc_ok wrapper w =
     w\<lparr> walk_tags :=
          TwoOopCallbackWrapper_destroy (fst (malloc_ok (walk_tags w))) (snd (malloc_ok (walk_tags w)))
            wrapper (walk_tags w) \<rparr>"

definition invoke_basic_heap_root_callback ::
  "object_model \<Rightarrow> (oop \<Rightarrow> 32 word) \<Rightarrow> (JvmtiTagMap \<Rightarrow> bool \<times> bool) \<Rightarrow> 'u BasicHeapWalkContext
   \<Rightarrow> jvmtiHeapRootKind \<Rightarrow> oop \<Rightarrow> 'u heap_walk \<Rightarrow> bool \<times> 'u heap_walk" where
  "invoke_basic_heap_root_callback om oop_size malloc_ok context root_kind obj w =
     (case heap_root_callback context of
        None \<Rightarrow> (True, check_for_visit obj w)
      | Some cb \<Rightarrow>
          (let wrapper = CallbackWrapper_new om oop_size (walk_tags w) obj;
               report = \<lparr> hr_kind = root_kind, hr_class_tag = w_klass_tag wrapper,
                          hr_size = w_obj_size wrapper, hr_tag = w_obj_tag wrapper \<rparr>;
               (control, new_tag, u) = cb report (user_data w);
               wrapper1 = wrapper\<lparr> w_obj_tag := new_tag \<rparr>;
               w1 = w\<lparr> user_data := u \<rparr>;
               w2 = (if control = JVMTI_ITERATION_CONTINUE \<and> object_ref_callback context \<noteq> None
                     then w1\<lparr> visit_stack := obj # visit_stack w1 \<rparr> else w1)
           in (control \<noteq> JVMTI_ITERATION_ABORT, end_scope malloc_ok wrapper1 w2)))"

definition invoke_basic_stack_ref_callback ::
  "object_model \<Rightarrow> (oop \<Rightarrow> 32 word) \<Rightarrow> (JvmtiTagMap \<Rightarrow> bool \<times> bool) \<Rightarrow> 'u BasicHeapWalkContext
   \<Rightarrow> jvmtiHeapRootKind \<Rightarrow> jlong \<Rightarrow> 32 word \<Rightarrow> 64 word \<Rightarrow> 32 word \<Rightarrow> oop \<Rightarrow> 'u heap_walk
   \<Rightarrow> bool \<times> 'u heap_walk" where
  "invoke_basic_stack_ref_callback om oop_size malloc_ok context root_kind thread_tag depth jmethod slot obj w =
     (case stack_ref_callback context of
        None \<Rightarrow> (True, check_for_visit obj w)
      | Some cb \<Rightarrow>
          (let wrapper = CallbackWrapper_new om oop_size (walk_tags w) obj;
               report = \<lparr> sr_kind = root_kind, sr_class_tag = w_klass_tag wrapper,
                          sr_size = w_obj_size wrapper, sr_tag = w_obj_tag wrapper,
                          sr_thread_tag = thread_tag, sr_depth = depth, sr_method = jmethod,
                          sr_slot = slot \<rparr>;
               (control, new_tag, u) = cb report (user_data w);
               wrapper1 = wrapper\<lparr> w_obj_tag := new_tag \<rparr>;
               w1 = w\<lparr> user_data := u \<rparr>;
               w2 = (if control = JVMTI_ITERATION_CONTINUE \<and> object_ref_callback context \<noteq> None
                     then w1\<lparr> visit_stack := obj # visit_stack w1 \<rparr> else w1)
           in (control \<noteq> JVMTI_ITERATION_ABORT, end_scope malloc_ok wrapper1 w2)))"

text \<open>
  \<open>invoke_basic_object_reference_callback\<close>, with \<open>cb\<close> the object reference callback of the
  context: a basic walk follows references only when it is set.
\<close>

definition invoke_basic_object_reference_callback ::
  "object_model \<Rightarrow> (oop \<Rightarrow> 32 word) \<Rightarrow> (JvmtiTagMap \<Rightarrow> bool \<times> bool)
   \<Rightarrow> 'u jvmtiObjectReferenceCallback \<Rightarrow> jvmtiObjectReferenceKind \<Rightarrow> oop \<Rightarrow> oop \<Rightarrow> 32 word
   \<Rightarrow> 'u heap_walk \<Rightarrow> bool \<times> 'u heap_walk" where
  "invoke_basic_object_reference_callback om oop_size malloc_ok cb ref_kind referrer referree index w =
     (let referrer_tag =
            (if referrer = last_referrer w then last_referrer_tag w
             else tag_for (walk_tags w) (klassOop_if_java_lang_Class om referrer));
          wrapper = CallbackWrapper_new om oop_size (walk_tags w) referree;
          report = \<lparr> or_kind = ref_kind, or_class_tag = w_klass_tag wrapper,
                     or_size = w_obj_size wrapper, or_tag = w_obj_tag wrapper,
                     or_referrer_tag = referrer_tag, or_index = index \<rparr>;
          (control, new_tag, u) = cb report (user_data w);
          wrapper1 = wrapper\<lparr> w_obj_tag := new_tag \<rparr>;
          w1 = w\<lparr> user_data := u,
                  object_reference_reports := object_reference_reports w @ [report],
                  last_referrer := referrer,
                  last_referrer_tag := (if referrer = referree then w_obj_tag wrapper1
                                        else referrer_tag) \<rparr>;
          w2 = (if control = JVMTI_ITERATION_CONTINUE then check_for_visit referree w1 else w1)
      in (if control = JVMTI_ITERATION_CONTINUE then True else control \<noteq> JVMTI_ITERATION_ABORT,
          end_scope malloc_ok wrapper1 w2))"

subsection \<open>CallbackInvoker: the advanced callbacks\<close>

text \<open>
  A callback that is handed the one slot of a \<open>CallbackWrapper\<close> has no referrer slot to
  write.
\<close>

fun write_tag :: "CallbackWrapper \<Rightarrow> tag_slot \<times> jlong \<Rightarrow> CallbackWrapper" where
  "write_tag w (ObjTag, v) = w\<lparr> w_obj_tag := v \<rparr>"
| "write_tag w (ReferrerTag, v) = w"

definition invoke_advanced_heap_root_callback ::
  "jvmti_h \<Rightarrow> object_model \<Rightarrow> (oop \<Rightarrow> 32 word) \<Rightarrow> (JvmtiTagMap \<Rightarrow> bool \<times> bool)
   \<Rightarrow> 'u AdvancedHeapWalkContext \<Rightarrow> jvmtiHeapReferenceKind \<Rightarrow> oop \<Rightarrow> 'u heap_walk
   \<Rightarrow> bool \<times> 'u heap_walk" where
  "invoke_advanced_heap_root_callback J om oop_size malloc_ok context ref_kind obj w =
     (case heap_reference_callback context of
        None \<Rightarrow> (True, check_for_visit obj w)
      | Some cb \<Rightarrow>
          if is_filtered_by_klass_filter om obj (klass_filter context)
          then (True, check_for_visit obj w)
          else
            (let wrapper = CallbackWrapper_new om oop_size (walk_tags w) obj in
             if is_filtered_by_heap_filter J (w_obj_tag wrapper) (w_klass_tag wrapper)
                  (heap_filter context)
             then (True, end_scope malloc_ok wrapper (check_for_visit obj w))
             else
               (let len = (if is_array om obj then array_length om obj else -1);
                    report = \<lparr> r_kind = ref_kind, r_info = None,
                               r_class_tag = w_klass_tag wrapper, r_referrer_class_tag = 0,
                               r_size = w_obj_size wrapper, r_tag = w_obj_tag wrapper,
                               r_referrer_tag = None, r_length = len \<rparr>;
                    (res, writes, u) = cb report (user_data w);
                    wrapper1 = foldl write_tag wrapper writes;
                    w1 = w\<lparr> user_data := u,
                            heap_reference_reports := heap_reference_reports w @ [report] \<rparr>
                in if res AND JVMTI_VISIT_ABORT J \<noteq> 0
                   then (False, end_scope malloc_ok wrapper1 w1)
                   else if res AND JVMTI_VISIT_OBJECTS J \<noteq> 0
                   then (True, end_scope malloc_ok wrapper1 (check_for_visit obj w1))
                   else (True, end_scope malloc_ok wrapper1 w1))))"

definition invoke_advanced_stack_ref_callback ::
  "jvmti_h \<Rightarrow> object_model \<Rightarrow> (oop \<Rightarrow> 32 word) \<Rightarrow> (JvmtiTagMap \<Rightarrow> bool \<times> bool)
   \<Rightarrow> 'u AdvancedHeapWalkContext \<Rightarrow> jvmtiHeapReferenceKind \<Rightarrow> jlong \<Rightarrow> jlong \<Rightarrow> 32 word
   \<Rightarrow> 64 word \<Rightarrow> jlong \<Rightarrow> 32 word \<Rightarrow> oop \<Rightarrow> 'u heap_walk \<Rightarrow> bool \<times> 'u heap_walk" where
  "invoke_advanced_stack_ref_callback J om oop_size malloc_ok context ref_kind thread_tag tid depth
     jmethod bci slot obj w =
     (case heap_reference_callback context of
        None \<Rightarrow> (True, check_for_visit obj w)
      | Some cb \<Rightarrow>
          if is_filtered_by_klass_filter om obj (klass_filter context)
          then (True, check_for_visit obj w)
          else
            (let wrapper = CallbackWrapper_new om oop_size (walk_tags w) obj in
             if is_filtered_by_heap_filter J (w_obj_tag wrapper) (w_klass_tag wrapper)
                  (heap_filter context)
             then (True, end_scope malloc_ok wrapper (check_for_visit obj w))
             else
               (let len = (if is_array om obj then array_length om obj else -1);
                    report = \<lparr> r_kind = ref_kind,
                               r_info = Some (Stack_local_info thread_tag tid depth jmethod bci slot),
                               r_class_tag = w_klass_tag wrapper, r_referrer_class_tag = 0,
                               r_size = w_obj_size wrapper, r_tag = w_obj_tag wrapper,
                               r_referrer_tag = None, r_length = len \<rparr>;
                    (res, writes, u) = cb report (user_data w);
                    wrapper1 = foldl write_tag wrapper writes;
                    w1 = w\<lparr> user_data := u,
                            heap_reference_reports := heap_reference_reports w @ [report] \<rparr>
                in if res AND JVMTI_VISIT_ABORT J \<noteq> 0
                   then (False, end_scope malloc_ok wrapper1 w1)
                   else if res AND JVMTI_VISIT_OBJECTS J \<noteq> 0
                   then (True, end_scope malloc_ok wrapper1 (check_for_visit obj w1))
                   else (True, end_scope malloc_ok wrapper1 w1))))"

definition REF_INFO_MASK :: "jvmti_h \<Rightarrow> 32 word" where
  "REF_INFO_MASK J =
     push_bit (kind_number J JVMTI_HEAP_REFERENCE_FIELD) 1
     OR push_bit (kind_number J JVMTI_HEAP_REFERENCE_STATIC_FIELD) 1
     OR push_bit (kind_number J JVMTI_HEAP_REFERENCE_ARRAY_ELEMENT) 1
     OR push_bit (kind_number J JVMTI_HEAP_REFERENCE_CONSTANT_POOL) 1
     OR push_bit (kind_number J JVMTI_HEAP_REFERENCE_STACK_LOCAL) 1
     OR push_bit (kind_number J JVMTI_HEAP_REFERENCE_JNI_LOCAL) 1"

definition invoke_advanced_object_reference_callback ::
  "jvmti_h \<Rightarrow> object_model \<Rightarrow> (oop \<Rightarrow> 32 word) \<Rightarrow> (JvmtiTagMap \<Rightarrow> bool \<times> bool)
   \<Rightarrow> 'u AdvancedHeapWalkContext \<Rightarrow> jvmtiHeapReferenceKind \<Rightarrow> oop \<Rightarrow> oop \<Rightarrow> 32 word
   \<Rightarrow> 'u heap_walk \<Rightarrow> bool \<times> 'u heap_walk" where
  "invoke_advanced_object_reference_callback J om oop_size malloc_ok context ref_kind referrer obj index w =
     (case heap_reference_callback context of
        None \<Rightarrow> (True, check_for_visit obj w)
      | Some cb \<Rightarrow>
          if is_filtered_by_klass_filter om obj (klass_filter context)
          then (True, check_for_visit obj w)
          else
            (let wrapper = TwoOopCallbackWrapper_new om oop_size (walk_tags w) referrer obj in
             if is_filtered_by_heap_filter J (w_obj_tag (base wrapper)) (w_klass_tag (base wrapper))
                  (heap_filter context)
             then (True, end_two_oop_scope malloc_ok wrapper (check_for_visit obj w))
             else
               (let len = (if is_array om obj then array_length om obj else -1);
                    report = \<lparr> r_kind = ref_kind,
                               r_info = (if REF_INFO_MASK J AND push_bit (kind_number J ref_kind) 1 \<noteq> 0
                                         then Some (Field_info index) else None),
                               r_class_tag = w_klass_tag (base wrapper),
                               r_referrer_class_tag = referrer_klass_tag wrapper,
                               r_size = w_obj_size (base wrapper),
                               r_tag = w_obj_tag (base wrapper),
                               r_referrer_tag = Some (referrer_tag wrapper),
                               r_length = len \<rparr>;
                    (res, writes, u) = cb report (user_data w);
                    wrapper1 = foldl write_slot wrapper writes;
                    w1 = w\<lparr> user_data := u,
                            heap_reference_reports := heap_reference_reports w @ [report] \<rparr>
                in if res AND JVMTI_VISIT_ABORT J \<noteq> 0
                   then (False, end_two_oop_scope malloc_ok wrapper1 w1)
                   else if res AND JVMTI_VISIT_OBJECTS J \<noteq> 0
                   then (True, end_two_oop_scope malloc_ok wrapper1 (check_for_visit obj w1))
                   else (True, end_two_oop_scope malloc_ok wrapper1 w1))))"

text \<open>
  \<open>report_primitive_field\<close>, \<open>report_string_value\<close> and \<open>report_primitive_array_values\<close>: the
  three have this one shape, with the callback \<open>cb\<close> of the context that the walk has
  checked to be set. The object is not pushed.
\<close>

definition report_primitive_value ::
  "jvmti_h \<Rightarrow> object_model \<Rightarrow> (oop \<Rightarrow> 32 word) \<Rightarrow> (JvmtiTagMap \<Rightarrow> bool \<times> bool)
   \<Rightarrow> 'u AdvancedHeapWalkContext \<Rightarrow> 'u primitive_value_callback
   \<Rightarrow> (jvmtiHeapReferenceKind \<times> 32 word) option \<Rightarrow> oop \<Rightarrow> 'u heap_walk \<Rightarrow> bool \<times> 'u heap_walk" where
  "report_primitive_value J om oop_size malloc_ok context cb field obj w =
     (if is_filtered_by_klass_filter om obj (klass_filter context) then (True, w)
      else
        (let wrapper = CallbackWrapper_new om oop_size (walk_tags w) obj in
         if is_filtered_by_heap_filter J (w_obj_tag wrapper) (w_klass_tag wrapper) (heap_filter context)
         then (True, end_scope malloc_ok wrapper w)
         else
           (let report = \<lparr> p_field = field, p_class_tag = w_klass_tag wrapper,
                           p_size = w_obj_size wrapper, p_tag = w_obj_tag wrapper,
                           p_object = obj \<rparr>;
                (res, new_tag, u) = cb report (user_data w);
                wrapper1 = wrapper\<lparr> w_obj_tag := new_tag \<rparr>
            in (\<not> (res AND JVMTI_VISIT_ABORT J \<noteq> 0),
                end_scope malloc_ok wrapper1 (w\<lparr> user_data := u \<rparr>)))))"

subsection \<open>The heap as the walk reads it\<close>

text \<open>
  What the walk reads of the heap and of the VM through functions that are not part of
  this file. \<open>NULL\<close> is the object 0. A class is given by its \<open>klassOop\<close>: its super class,
  loader, protection domain and signers, the entries 1 and up of its constant pool, its
  local interfaces and its static fields; an instance by the fields of its field map; an
  object array by its elements.
\<close>

datatype ClassFieldDescriptor = Oop_field "32 word" oop | Primitive_field "32 word"

datatype pool_entry = String_entry oop | Klass_entry oop | Other_entry

record heap_graph =
  is_instance :: "oop \<Rightarrow> bool"
  is_objArray :: "oop \<Rightarrow> bool"
  is_typeArray :: "oop \<Rightarrow> bool"
  visible_oop :: "oop \<Rightarrow> bool"
  oop_is_instance :: "oop \<Rightarrow> bool"
  is_linked :: "oop \<Rightarrow> bool"
  java_super :: "oop \<Rightarrow> oop"
  Object_klass :: oop
  String_klass :: oop
  systemObjArrayKlassObj :: oop
  class_loader :: "oop \<Rightarrow> oop"
  protection_domain :: "oop \<Rightarrow> oop"
  signers :: "oop \<Rightarrow> oop"
  constants :: "oop \<Rightarrow> pool_entry list"
  local_interfaces :: "oop \<Rightarrow> oop list"
  static_fields :: "oop \<Rightarrow> ClassFieldDescriptor list"
  instance_fields :: "oop \<Rightarrow> ClassFieldDescriptor list"
  elements :: "oop \<Rightarrow> oop list"
  deleted_handle :: oop

text \<open>
  The roots. A thread's stack is given as what the frame walk of \<open>collect_stack_roots\<close>
  meets, in order: an object local of a Java frame (with depth, method, bci and slot), or
  the block of JNI handles of a native frame (with depth and method), which is handed to
  the \<open>JNILocalRootsClosure\<close>.
\<close>

datatype stack_item =
    Stack_local "32 word" "64 word" jlong "32 word" oop
  | Jni_locals "32 word" "64 word" "oop list"

record java_thread =
  threadObj :: oop
  is_exiting :: bool
  is_hidden_from_external_view :: bool
  thread_id :: jlong
  frames :: "stack_item list"

record root_set =
  jni_handles :: "oop list"
  system_dictionary :: "oop list"
  inflated_monitors :: "oop list"
  threads :: "java_thread list"
  universe_roots :: "oop list"
  code_cache_roots :: "oop list"

subsection \<open>VM_HeapWalkOperation\<close>

text \<open>
  The operation, with the context of the kind of walk it is and with the VM around it:
  the constants of \<open>jvmti.h\<close>, the objects, the heap, the sizes of the objects, the
  outcomes of the allocations, the roots, and what \<open>ObjectMarker\<close> asks of the VM.
\<close>

record 'u VM_HeapWalkOperation =
  is_advanced_heap_walk :: bool
  initial_object :: oop
  basic_context :: "'u BasicHeapWalkContext"
  advanced_context :: "'u AdvancedHeapWalkContext"
  jvmti :: jvmti_h
  objects :: object_model
  graph :: heap_graph
  object_size :: "oop \<Rightarrow> 32 word"
  allocation :: "JvmtiTagMap \<Rightarrow> bool \<times> bool"
  roots :: root_set
  services :: vm_services





subsection \<open>CallbackInvoker: the reports\<close>

definition report_simple_root ::
  "'u VM_HeapWalkOperation \<Rightarrow> jvmtiHeapReferenceKind \<Rightarrow> oop \<Rightarrow> 'u heap_walk \<Rightarrow> bool \<times> 'u heap_walk" where
  "report_simple_root op kind obj w =
     (if \<not> is_advanced_heap_walk op
      then invoke_basic_heap_root_callback (objects op) (object_size op) (allocation op)
             (basic_context op) (toJvmtiHeapRootKind kind) obj w
      else invoke_advanced_heap_root_callback (jvmti op) (objects op) (object_size op) (allocation op)
             (advanced_context op) kind obj w)"

definition report_jni_local_root ::
  "'u VM_HeapWalkOperation \<Rightarrow> jlong \<Rightarrow> jlong \<Rightarrow> 32 word \<Rightarrow> 64 word \<Rightarrow> oop \<Rightarrow> 'u heap_walk
   \<Rightarrow> bool \<times> 'u heap_walk" where
  "report_jni_local_root op thread_tag tid depth m obj w =
     (if \<not> is_advanced_heap_walk op
      then invoke_basic_stack_ref_callback (objects op) (object_size op) (allocation op)
             (basic_context op) JVMTI_HEAP_ROOT_JNI_LOCAL thread_tag depth m (-1) obj w
      else invoke_advanced_stack_ref_callback (jvmti op) (objects op) (object_size op) (allocation op)
             (advanced_context op) JVMTI_HEAP_REFERENCE_JNI_LOCAL thread_tag tid depth m (-1) (-1) obj w)"

definition report_stack_ref_root ::
  "'u VM_HeapWalkOperation \<Rightarrow> jlong \<Rightarrow> jlong \<Rightarrow> 32 word \<Rightarrow> 64 word \<Rightarrow> jlong \<Rightarrow> 32 word \<Rightarrow> oop
   \<Rightarrow> 'u heap_walk \<Rightarrow> bool \<times> 'u heap_walk" where
  "report_stack_ref_root op thread_tag tid depth jmethod bci slot obj w =
     (if \<not> is_advanced_heap_walk op
      then invoke_basic_stack_ref_callback (objects op) (object_size op) (allocation op)
             (basic_context op) JVMTI_HEAP_ROOT_STACK_LOCAL thread_tag depth jmethod slot obj w
      else invoke_advanced_stack_ref_callback (jvmti op) (objects op) (object_size op) (allocation op)
             (advanced_context op) JVMTI_HEAP_REFERENCE_STACK_LOCAL thread_tag tid depth jmethod bci
             slot obj w)"

text \<open>
  The ten functions that report a reference from an object have one shape, which is this
  one with the two kinds. A basic walk that follows references has its object reference
  callback set; without it the walk does not come here, and the report stops it.
\<close>

definition report_object_reference ::
  "'u VM_HeapWalkOperation \<Rightarrow> jvmtiObjectReferenceKind \<Rightarrow> jvmtiHeapReferenceKind \<Rightarrow> oop \<Rightarrow> oop
   \<Rightarrow> 32 word \<Rightarrow> 'u heap_walk \<Rightarrow> bool \<times> 'u heap_walk" where
  "report_object_reference op basic_kind advanced_kind referrer referree index w =
     (if \<not> is_advanced_heap_walk op
      then (case object_ref_callback (basic_context op) of
              None \<Rightarrow> (False, w)
            | Some cb \<Rightarrow>
                invoke_basic_object_reference_callback (objects op) (object_size op) (allocation op)
                  cb basic_kind referrer referree index w)
      else invoke_advanced_object_reference_callback (jvmti op) (objects op) (object_size op)
             (allocation op) (advanced_context op) advanced_kind referrer referree index w)"

definition report_class_reference ::
  "'u VM_HeapWalkOperation \<Rightarrow> oop \<Rightarrow> oop \<Rightarrow> 'u heap_walk \<Rightarrow> bool \<times> 'u heap_walk" where
  "report_class_reference op referrer referree =
     report_object_reference op JVMTI_REFERENCE_CLASS JVMTI_HEAP_REFERENCE_CLASS referrer referree (-1)"

definition report_class_loader_reference ::
  "'u VM_HeapWalkOperation \<Rightarrow> oop \<Rightarrow> oop \<Rightarrow> 'u heap_walk \<Rightarrow> bool \<times> 'u heap_walk" where
  "report_class_loader_reference op referrer referree =
     report_object_reference op JVMTI_REFERENCE_CLASS_LOADER JVMTI_HEAP_REFERENCE_CLASS_LOADER
       referrer referree (-1)"

definition report_signers_reference ::
  "'u VM_HeapWalkOperation \<Rightarrow> oop \<Rightarrow> oop \<Rightarrow> 'u heap_walk \<Rightarrow> bool \<times> 'u heap_walk" where
  "report_signers_reference op referrer referree =
     report_object_reference op JVMTI_REFERENCE_SIGNERS JVMTI_HEAP_REFERENCE_SIGNERS referrer referree (-1)"

definition report_protection_domain_reference ::
  "'u VM_HeapWalkOperation \<Rightarrow> oop \<Rightarrow> oop \<Rightarrow> 'u heap_walk \<Rightarrow> bool \<times> 'u heap_walk" where
  "report_protection_domain_reference op referrer referree =
     report_object_reference op JVMTI_REFERENCE_PROTECTION_DOMAIN JVMTI_HEAP_REFERENCE_PROTECTION_DOMAIN
       referrer referree (-1)"

definition report_superclass_reference ::
  "'u VM_HeapWalkOperation \<Rightarrow> oop \<Rightarrow> oop \<Rightarrow> 'u heap_walk \<Rightarrow> bool \<times> 'u heap_walk" where
  "report_superclass_reference op referrer referree =
     report_object_reference op JVMTI_REFERENCE_CLASS JVMTI_HEAP_REFERENCE_SUPERCLASS referrer referree (-1)"

definition report_interface_reference ::
  "'u VM_HeapWalkOperation \<Rightarrow> oop \<Rightarrow> oop \<Rightarrow> 'u heap_walk \<Rightarrow> bool \<times> 'u heap_walk" where
  "report_interface_reference op referrer referree =
     report_object_reference op JVMTI_REFERENCE_INTERFACE JVMTI_HEAP_REFERENCE_INTERFACE
       referrer referree (-1)"

definition report_static_field_reference ::
  "'u VM_HeapWalkOperation \<Rightarrow> oop \<Rightarrow> oop \<Rightarrow> 32 word \<Rightarrow> 'u heap_walk \<Rightarrow> bool \<times> 'u heap_walk" where
  "report_static_field_reference op referrer referree slot =
     report_object_reference op JVMTI_REFERENCE_STATIC_FIELD JVMTI_HEAP_REFERENCE_STATIC_FIELD
       referrer referree slot"

definition report_array_element_reference ::
  "'u VM_HeapWalkOperation \<Rightarrow> oop \<Rightarrow> oop \<Rightarrow> 32 word \<Rightarrow> 'u heap_walk \<Rightarrow> bool \<times> 'u heap_walk" where
  "report_array_element_reference op referrer referree index =
     report_object_reference op JVMTI_REFERENCE_ARRAY_ELEMENT JVMTI_HEAP_REFERENCE_ARRAY_ELEMENT
       referrer referree index"

definition report_field_reference ::
  "'u VM_HeapWalkOperation \<Rightarrow> oop \<Rightarrow> oop \<Rightarrow> 32 word \<Rightarrow> 'u heap_walk \<Rightarrow> bool \<times> 'u heap_walk" where
  "report_field_reference op referrer referree slot =
     report_object_reference op JVMTI_REFERENCE_FIELD JVMTI_HEAP_REFERENCE_FIELD referrer referree slot"

definition report_constant_pool_reference ::
  "'u VM_HeapWalkOperation \<Rightarrow> oop \<Rightarrow> oop \<Rightarrow> 32 word \<Rightarrow> 'u heap_walk \<Rightarrow> bool \<times> 'u heap_walk" where
  "report_constant_pool_reference op referrer referree index =
     report_object_reference op JVMTI_REFERENCE_CONSTANT_POOL JVMTI_HEAP_REFERENCE_CONSTANT_POOL
       referrer referree index"

text \<open>
  The reports of primitive values, which the walk makes only when the callback is set.
\<close>

definition report_with ::
  "'u VM_HeapWalkOperation \<Rightarrow> 'u primitive_value_callback option
   \<Rightarrow> (jvmtiHeapReferenceKind \<times> 32 word) option \<Rightarrow> oop \<Rightarrow> 'u heap_walk \<Rightarrow> bool \<times> 'u heap_walk" where
  "report_with op callback field obj w =
     (case callback of
        None \<Rightarrow> (False, w)
      | Some cb \<Rightarrow>
          report_primitive_value (jvmti op) (objects op) (object_size op) (allocation op)
            (advanced_context op) cb field obj w)"

definition report_primitive_instance_field ::
  "'u VM_HeapWalkOperation \<Rightarrow> oop \<Rightarrow> 32 word \<Rightarrow> 'u heap_walk \<Rightarrow> bool \<times> 'u heap_walk" where
  "report_primitive_instance_field op obj index =
     report_with op (primitive_field_callback (advanced_context op))
       (Some (JVMTI_HEAP_REFERENCE_FIELD, index)) obj"

definition report_primitive_static_field ::
  "'u VM_HeapWalkOperation \<Rightarrow> oop \<Rightarrow> 32 word \<Rightarrow> 'u heap_walk \<Rightarrow> bool \<times> 'u heap_walk" where
  "report_primitive_static_field op obj index =
     report_with op (primitive_field_callback (advanced_context op))
       (Some (JVMTI_HEAP_REFERENCE_STATIC_FIELD, index)) obj"

definition report_string_value ::
  "'u VM_HeapWalkOperation \<Rightarrow> oop \<Rightarrow> 'u heap_walk \<Rightarrow> bool \<times> 'u heap_walk" where
  "report_string_value op str =
     report_with op (string_primitive_value_callback (advanced_context op)) None str"

definition report_primitive_array_values ::
  "'u VM_HeapWalkOperation \<Rightarrow> oop \<Rightarrow> 'u heap_walk \<Rightarrow> bool \<times> 'u heap_walk" where
  "report_primitive_array_values op obj =
     report_with op (array_primitive_value_callback (advanced_context op)) None obj"

subsection \<open>The iteration over one object\<close>



definition skip :: "'w \<Rightarrow> bool \<times> 'w" where
  "skip w = (True, w)"








subsection \<open>The roots\<close>







subsection \<open>doit\<close>




subsection \<open>Notions for the statements about the callbacks\<close>

text \<open>
  An object is rejected by the filters of an advanced walk when its class is not the class
  of the class filter, or the heap filter excludes its tag or the tag of its class. A
  report that is suppressed returns \<open>true\<close>, calls no callback (the log and the agent's data
  are as before), and pushes the object if it is not visited.
\<close>

definition rejected ::
  "jvmti_h \<Rightarrow> object_model \<Rightarrow> (oop \<Rightarrow> 32 word) \<Rightarrow> 'u AdvancedHeapWalkContext \<Rightarrow> 'u heap_walk
   \<Rightarrow> oop \<Rightarrow> bool" where
  "rejected J om oop_size context w obj =
     (is_filtered_by_klass_filter om obj (klass_filter context)
      \<or> is_filtered_by_heap_filter J
           (w_obj_tag (CallbackWrapper_new om oop_size (walk_tags w) obj))
           (w_klass_tag (CallbackWrapper_new om oop_size (walk_tags w) obj))
           (heap_filter context))"

definition suppressed :: "'u heap_walk \<Rightarrow> oop \<Rightarrow> bool \<times> 'u heap_walk \<Rightarrow> bool" where
  "suppressed w obj res =
     (fst res
      \<and> heap_reference_reports (snd res) = heap_reference_reports w
      \<and> user_data (snd res) = user_data w
      \<and> headers (snd res) = headers w
      \<and> visit_stack (snd res) = (if visited w obj then visit_stack w else obj # visit_stack w))"

text \<open>
  A walk state at the start of a walk, over the empty tag map, with the agent's data a
  counter; a basic callback that writes the tag 9 and an advanced callback that counts the
  calls made to it; the values that the JVM TI specification gives the constants of
  \<open>jvmti.h\<close>.
\<close>

definition fresh_walk :: "nat heap_walk" where
  "fresh_walk =
     \<lparr> walk_tags = default_tag_map, visit_stack = [], headers = (\<lambda>ob. prototype),
       saved_oop_stack = [], saved_mark_stack = [], preserved_marks = [], class_list = None,
       jvmti_cached_class_field_map = (\<lambda>ik. False), last_referrer = 0, last_referrer_tag = 0,
       user_data = 0, object_reference_reports = [], heap_reference_reports = [] \<rparr>"

definition tag_with_9 :: "nat jvmtiObjectReferenceCallback" where
  "tag_with_9 report u = (JVMTI_ITERATION_CONTINUE, 9, Suc u)"

definition count_calls :: "nat jvmtiHeapReferenceCallback" where
  "count_calls report u = (0, [], Suc u)"

definition only_class_24 :: "nat AdvancedHeapWalkContext" where
  "only_class_24 =
     \<lparr> heap_filter = 0, klass_filter = Some 24, heap_reference_callback = Some count_calls,
       primitive_field_callback = None, array_primitive_value_callback = None,
       string_primitive_value_callback = None \<rparr>"

fun kind_numbers :: "jvmtiHeapReferenceKind \<Rightarrow> nat" where
  "kind_numbers JVMTI_HEAP_REFERENCE_CLASS = 1"
| "kind_numbers JVMTI_HEAP_REFERENCE_FIELD = 2"
| "kind_numbers JVMTI_HEAP_REFERENCE_ARRAY_ELEMENT = 3"
| "kind_numbers JVMTI_HEAP_REFERENCE_CLASS_LOADER = 4"
| "kind_numbers JVMTI_HEAP_REFERENCE_SIGNERS = 5"
| "kind_numbers JVMTI_HEAP_REFERENCE_PROTECTION_DOMAIN = 6"
| "kind_numbers JVMTI_HEAP_REFERENCE_INTERFACE = 7"
| "kind_numbers JVMTI_HEAP_REFERENCE_STATIC_FIELD = 8"
| "kind_numbers JVMTI_HEAP_REFERENCE_CONSTANT_POOL = 9"
| "kind_numbers JVMTI_HEAP_REFERENCE_SUPERCLASS = 10"
| "kind_numbers JVMTI_HEAP_REFERENCE_JNI_GLOBAL = 21"
| "kind_numbers JVMTI_HEAP_REFERENCE_SYSTEM_CLASS = 22"
| "kind_numbers JVMTI_HEAP_REFERENCE_MONITOR = 23"
| "kind_numbers JVMTI_HEAP_REFERENCE_STACK_LOCAL = 24"
| "kind_numbers JVMTI_HEAP_REFERENCE_JNI_LOCAL = 25"
| "kind_numbers JVMTI_HEAP_REFERENCE_THREAD = 26"
| "kind_numbers JVMTI_HEAP_REFERENCE_OTHER = 27"

definition jvmti_values :: jvmti_h where
  "jvmti_values =
     \<lparr> JVMTI_VISIT_OBJECTS = 0x100, JVMTI_VISIT_ABORT = 0x8000, JVMTI_HEAP_FILTER_TAGGED = 0x4,
       JVMTI_HEAP_FILTER_UNTAGGED = 0x8, JVMTI_HEAP_FILTER_CLASS_TAGGED = 0x10,
       JVMTI_HEAP_FILTER_CLASS_UNTAGGED = 0x20, kind_number = kind_numbers \<rparr>"

definition always_ok :: "JvmtiTagMap \<Rightarrow> bool \<times> bool" where
  "always_ok m = (True, True)"

subsection \<open>Notions for the statement about the marks\<close>

text \<open>
  A step keeps the marks when it leaves the headers, the two stacks of saved headers and
  the headers that \<open>preserve_marks\<close> put aside as they are. A walk state is restorable to the
  headers \<open>h0\<close> when every unmarked object has its header of \<open>h0\<close>, every marked object has the
  marked prototype as its header and is on the stack of saved objects if its header of \<open>h0\<close>
  had to be preserved, the stack of saved headers holds, for each saved object, its header
  of \<open>h0\<close>, and \<open>p\<close> is what \<open>preserve_marks\<close> put aside.
\<close>

definition marks_kept :: "'u heap_walk \<Rightarrow> 'u heap_walk \<Rightarrow> bool" where
  "marks_kept w w1 =
     (headers w1 = headers w \<and> saved_oop_stack w1 = saved_oop_stack w
      \<and> saved_mark_stack w1 = saved_mark_stack w \<and> preserved_marks w1 = preserved_marks w)"

definition keeps :: "('u heap_walk \<Rightarrow> bool \<times> 'u heap_walk) \<Rightarrow> bool" where
  "keeps step = (\<forall>w. marks_kept w (snd (step w)))"

definition restorable :: "(oop \<Rightarrow> markOop) \<Rightarrow> (oop \<times> markOop) list \<Rightarrow> 'u heap_walk \<Rightarrow> bool" where
  "restorable h0 p w =
     ((\<forall>ob. if is_marked (headers w ob)
            then headers w ob = set_marked prototype
                 \<and> (must_be_preserved (h0 ob) \<longrightarrow> ob \<in> set (saved_oop_stack w))
            else headers w ob = h0 ob)
      \<and> length (saved_mark_stack w) = length (saved_oop_stack w)
      \<and> (\<forall>i < length (saved_oop_stack w). saved_mark_stack w ! i = h0 (saved_oop_stack w ! i))
      \<and> preserved_marks w = p)"









text \<open>
  The number of objects that are not marked, which every visit of the loop of \<open>doit\<close> brings
  down.
\<close>

definition unmarked :: "'u heap_walk \<Rightarrow> nat" where
  "unmarked w = card {ob. \<not> is_marked (headers w ob)}"

section \<open>Properties of the hashmap\<close>

lemma hash_less: "0 < sz \<Longrightarrow> hash key sz < sz"
  by (simp add: hash_def)

lemma mset_concat_update:
  "i < length xs \<Longrightarrow> mset (concat (xs[i := ys])) + mset (xs ! i) = mset (concat xs) + mset ys"
proof -
  assume i: "i < length xs"
  have a: "xs[i := ys] = take i xs @ ys # drop (Suc i) xs" using i by (rule upd_conv_take_nth_drop)
  have b: "xs = take i xs @ xs ! i # drop (Suc i) xs" using i by (rule id_take_nth_drop)
  have "mset (concat xs) = mset (concat (take i xs)) + mset (xs ! i) + mset (concat (drop (Suc i) xs))"
    by (subst b) simp
  moreover have "mset (concat (xs[i := ys])) = mset (concat (take i xs)) + mset ys + mset (concat (drop (Suc i) xs))"
    by (subst a) simp
  ultimately show ?thesis by simp
qed

lemma mset_concat_cons_at:
  "i < length xs \<Longrightarrow> mset (concat (xs[i := e # xs ! i])) = add_mset e (mset (concat xs))"
  using mset_concat_update[of i xs "e # xs ! i"] by simp

lemma buckets_eq: "length (table hm) = size_hm hm \<Longrightarrow> buckets hm = table hm"
  unfolding buckets_def by (metis map_nth)

lemma in_concat_iff_nth: "e \<in> set (concat tbl) \<longleftrightarrow> (\<exists>i < length tbl. e \<in> set (tbl ! i))"
proof
  assume "e \<in> set (concat tbl)"
  then obtain xs where "xs \<in> set tbl" "e \<in> set xs" by auto
  then show "\<exists>i < length tbl. e \<in> set (tbl ! i)" by (metis in_set_conv_nth)
next
  assume "\<exists>i < length tbl. e \<in> set (tbl ! i)"
  then show "e \<in> set (concat tbl)" by (auto intro: nth_mem)
qed

lemma find_object_Some:
  "List.find (\<lambda>e. object e = k) xs = Some e \<Longrightarrow> e \<in> set xs \<and> object e = k"
  by (induction xs) (auto split: if_splits)

lemma find_object_None:
  "List.find (\<lambda>e. object e = k) xs = None \<longleftrightarrow> k \<notin> object ` set xs"
  by (induction xs) auto

lemma find_object_distinct:
  "distinct (map object xs) \<Longrightarrow> e \<in> set xs \<Longrightarrow> List.find (\<lambda>x. object x = object e) xs = Some e"
  by (induction xs) (auto simp: image_iff)

lemma wf_bucket_of:
  assumes "wf_hashmap hm" "e \<in> set (entries hm)"
  shows "e \<in> set (table hm ! hash (object e) (size_hm hm))"
  using assms unfolding wf_hashmap_def entries_def in_concat_iff_nth by auto

lemma wf_bucket_sub:
  assumes "wf_hashmap hm" 
  shows "set (table hm ! hash k (size_hm hm)) \<subseteq> set (entries hm)"
proof -
  have "hash k (size_hm hm) < length (table hm)"
    using assms hash_less[of "size_hm hm" k] unfolding wf_hashmap_def by simp
  then have "table hm ! hash k (size_hm hm) \<in> set (table hm)" by (rule nth_mem)
  then show ?thesis unfolding entries_def by auto
qed

lemma distinct_map_sub:
  "distinct (map f (concat tbl)) \<Longrightarrow> i < length tbl \<Longrightarrow> distinct (map f (tbl ! i))"
proof -
  assume d: "distinct (map f (concat tbl))" and i: "i < length tbl"
  have b: "tbl = take i tbl @ tbl ! i # drop (Suc i) tbl" using i by (rule id_take_nth_drop)
  have "distinct (map f (concat (take i tbl @ tbl ! i # drop (Suc i) tbl)))" using d b by simp
  then show ?thesis by simp
qed

lemma wf_bucket_distinct:
  assumes "wf_hashmap hm"
  shows "distinct (map object (table hm ! hash k (size_hm hm)))"
  using assms hash_less[of "size_hm hm" k] distinct_map_sub[of object "table hm" "hash k (size_hm hm)"]
  unfolding wf_hashmap_def entries_def by auto

lemma find_Some_iff_wf:
  assumes "wf_hashmap hm"
  shows "hashmap_find hm k = Some e \<longleftrightarrow> e \<in> set (entries hm) \<and> object e = k"
proof
  assume "hashmap_find hm k = Some e"
  then show "e \<in> set (entries hm) \<and> object e = k"
    using find_object_Some wf_bucket_sub[OF assms] unfolding hashmap_find_def by blast
next
  assume a: "e \<in> set (entries hm) \<and> object e = k"
  then have "e \<in> set (table hm ! hash k (size_hm hm))" using wf_bucket_of[OF assms] by blast
  then show "hashmap_find hm k = Some e"
    using find_object_distinct[OF wf_bucket_distinct[OF assms, of k]] a unfolding hashmap_find_def by blast
qed

lemma find_None_iff_wf:
  assumes "wf_hashmap hm"
  shows "hashmap_find hm k = None \<longleftrightarrow> k \<notin> object ` set (entries hm)"
proof -
  have "hashmap_find hm k = None \<longleftrightarrow> (\<forall>e. hashmap_find hm k \<noteq> Some e)" by auto
  then show ?thesis using find_Some_iff_wf[OF assms] by auto
qed

lemma mset_eq_props:
  assumes "mset xs = mset ys"
  shows "set xs = set ys" "length xs = length ys" "distinct (map f xs) = distinct (map f ys)"
proof -
  show "set xs = set ys" using assms by (rule mset_eq_setD)
  show "length xs = length ys" using assms by (rule mset_eq_length)
  have "mset (map f xs) = mset (map f ys)" using assms by (metis mset_map)
  then show "distinct (map f xs) = distinct (map f ys)" by (rule mset_eq_imp_distinct_iff)
qed

lemma wf_trace_upd [simp]: "wf_hashmap (hm\<lparr>trace_threshold := x\<rparr>) = wf_hashmap hm"
  by (simp add: wf_hashmap_def entries_def)

lemma wf_resizing_upd [simp]: "wf_hashmap (hm\<lparr>resizing_enabled := x\<rparr>) = wf_hashmap hm"
  by (simp add: wf_hashmap_def entries_def)

lemma entries_trace_upd [simp]: "entries (hm\<lparr>trace_threshold := x\<rparr>) = entries hm"
  by (simp add: entries_def)

lemma entries_resizing_upd [simp]: "entries (hm\<lparr>resizing_enabled := x\<rparr>) = entries hm"
  by (simp add: entries_def)

lemma wf_compute_next [simp]: "wf_hashmap (compute_next_trace_threshold hm) = wf_hashmap hm"
  by (simp add: compute_next_trace_threshold_def)

lemma entries_compute_next [simp]: "entries (compute_next_trace_threshold hm) = entries hm"
  by (simp add: compute_next_trace_threshold_def)

text \<open>One bucket replaced.\<close>

lemma wf_update_bucket:
  assumes wf: "wf_hashmap hm"
    and h: "h < size_hm hm"
    and c: "\<forall>e \<in> set c. hash (object e) (size_hm hm) = h"
    and t: "\<forall>e \<in> set (concat ((table hm)[h := c])). tag e \<noteq> 0"
    and d: "distinct (map object (concat ((table hm)[h := c])))"
    and n: "n = int (length (concat ((table hm)[h := c])))"
  shows "wf_hashmap (hm\<lparr>table := (table hm)[h := c], entry_count := n\<rparr>)"
proof -
  have len: "length (table hm) = size_hm hm" using wf by (simp add: wf_hashmap_def)
  have b: "\<forall>i < size_hm hm. \<forall>e \<in> set ((table hm)[h := c] ! i). hash (object e) (size_hm hm) = i"
  proof (intro allI impI)
    fix i assume i: "i < size_hm hm"
    show "\<forall>e \<in> set ((table hm)[h := c] ! i). hash (object e) (size_hm hm) = i"
    proof (cases "i = h")
      case True
      then show ?thesis using c h len by simp
    next
      case False
      then show ?thesis using wf i by (simp add: wf_hashmap_def)
    qed
  qed
  show ?thesis using wf b t d n by (simp add: wf_hashmap_def entries_def)
qed

lemma raw_add:
  assumes wf: "wf_hashmap hm" and fresh: "object e \<notin> object ` set (entries hm)" and tg: "tag e \<noteq> 0"
  defines "h \<equiv> hash (object e) (size_hm hm)"
  defines "hm1 \<equiv> hm\<lparr>table := (table hm)[h := e # table hm ! h], entry_count := entry_count hm + 1\<rparr>"
  shows "wf_hashmap hm1" and "mset (entries hm1) = add_mset e (mset (entries hm))"
proof -
  have len: "length (table hm) = size_hm hm" and pos: "0 < size_hm hm"
    using wf by (simp_all add: wf_hashmap_def)
  have h: "h < size_hm hm" unfolding h_def using pos by (rule hash_less)
  have m: "mset (concat ((table hm)[h := e # table hm ! h])) = add_mset e (mset (entries hm))"
    unfolding entries_def using h len by (simp add: mset_concat_cons_at)
  show "mset (entries hm1) = add_mset e (mset (entries hm))"
    using m by (simp add: hm1_def entries_def)
  have m': "mset (concat ((table hm)[h := e # table hm ! h])) = mset (e # entries hm)" using m by simp
  have c: "\<forall>x \<in> set (e # table hm ! h). hash (object x) (size_hm hm) = h"
    using wf h by (auto simp: wf_hashmap_def h_def)
  have t: "\<forall>x \<in> set (concat ((table hm)[h := e # table hm ! h])). tag x \<noteq> 0"
    unfolding mset_eq_props(1)[OF m'] using wf tg by (auto simp: wf_hashmap_def)
  have d: "distinct (map object (concat ((table hm)[h := e # table hm ! h])))"
    unfolding mset_eq_props(3)[OF m'] using wf fresh by (auto simp: wf_hashmap_def)
  have n: "entry_count hm + 1 = int (length (concat ((table hm)[h := e # table hm ! h])))"
    unfolding mset_eq_props(2)[OF m'] using wf by (auto simp: wf_hashmap_def)
  show "wf_hashmap hm1" unfolding hm1_def by (rule wf_update_bucket[OF wf h c t d n])
qed

text \<open>The rehash loop.\<close>

lemma link_at_head_props:
  assumes "0 < n" "length tbl = n"
  shows "length (link_at_head n tbl e) = n"
    and "mset (concat (link_at_head n tbl e)) = add_mset e (mset (concat tbl))"
    and "(\<forall>i < n. \<forall>x \<in> set (tbl ! i). hash (object x) n = i) \<Longrightarrow>
         (\<forall>i < n. \<forall>x \<in> set (link_at_head n tbl e ! i). hash (object x) n = i)"
proof -
  have h: "hash (object e) n < length tbl" using assms hash_less by simp
  show "length (link_at_head n tbl e) = n" using assms by (simp add: link_at_head_def Let_def)
  show "mset (concat (link_at_head n tbl e)) = add_mset e (mset (concat tbl))"
    using h by (simp add: link_at_head_def Let_def mset_concat_cons_at)
  show "(\<forall>i < n. \<forall>x \<in> set (tbl ! i). hash (object x) n = i) \<Longrightarrow>
         (\<forall>i < n. \<forall>x \<in> set (link_at_head n tbl e ! i). hash (object x) n = i)"
    using h assms by (auto simp: link_at_head_def Let_def nth_list_update)
qed

lemma foldl_link_props:
  assumes "0 < n"
  shows "length tbl = n \<Longrightarrow> (\<forall>i < n. \<forall>x \<in> set (tbl ! i). hash (object x) n = i) \<Longrightarrow>
         length (foldl (link_at_head n) tbl es) = n \<and>
         mset (concat (foldl (link_at_head n) tbl es)) = mset (concat tbl) + mset es \<and>
         (\<forall>i < n. \<forall>x \<in> set (foldl (link_at_head n) tbl es ! i). hash (object x) n = i)"
proof (induction es arbitrary: tbl)
  case Nil
  then show ?case by simp
next
  case (Cons e es)
  note p = link_at_head_props[OF assms Cons.prems(1), of e]
  have "length (foldl (link_at_head n) (link_at_head n tbl e) es) = n \<and>
        mset (concat (foldl (link_at_head n) (link_at_head n tbl e) es)) =
          mset (concat (link_at_head n tbl e)) + mset es \<and>
        (\<forall>i < n. \<forall>x \<in> set (foldl (link_at_head n) (link_at_head n tbl e) es ! i). hash (object x) n = i)"
    by (rule Cons.IH[OF p(1) p(3)[OF Cons.prems(2)]])
  then show ?case using p(2) by simp
qed

lemma rehash_props:
  assumes "0 < n" "length (table hm) = size_hm hm"
  shows "length (rehash hm n) = n"
    and "mset (concat (rehash hm n)) = mset (entries hm)"
    and "\<forall>i < n. \<forall>x \<in> set (rehash hm n ! i). hash (object x) n = i"
  using foldl_link_props[OF assms(1), of "replicate n []" "concat (table hm)"]
  by (simp_all add: rehash_def buckets_eq[OF assms(2)] entries_def)

lemma sizes_next:
  assumes "i < 11" "0 \<le> sizes ! (i + 1)"
  shows "i + 1 < 11" "0 < sizes ! (i + 1)"
proof -
  have "i = 0 \<or> i = 1 \<or> i = 2 \<or> i = 3 \<or> i = 4 \<or> i = 5 \<or> i = 6 \<or> i = 7 \<or> i = 8 \<or> i = 9 \<or> i = 10"
    using assms(1) by arith
  then show "i + 1 < 11" "0 < sizes ! (i + 1)" using assms(2)
    by (auto simp: sizes_def)
qed

lemma resize_props:
  assumes wf: "wf_hashmap hm"
  shows "wf_hashmap (hashmap_resize ok hm)" and "mset (entries (hashmap_resize ok hm)) = mset (entries hm)"
proof -
  let ?ns = "sizes ! (size_index hm + 1)"
  have len: "length (table hm) = size_hm hm" and si: "size_index hm < 11"
    using wf by (simp_all add: wf_hashmap_def)
  show "mset (entries (hashmap_resize ok hm)) = mset (entries hm)"
  proof (cases "?ns < 0 \<or> \<not> ok")
    case True
    then show ?thesis by (auto simp: hashmap_resize_def Let_def)
  next
    case False
    then have pos: "0 < nat ?ns" using sizes_next[OF si] by simp
    show ?thesis using False rehash_props(2)[OF pos len]
      by (simp add: hashmap_resize_def Let_def entries_def)
  qed
  show "wf_hashmap (hashmap_resize ok hm)"
  proof (cases "?ns < 0 \<or> \<not> ok")
    case True
    then show ?thesis using wf by (auto simp: hashmap_resize_def Let_def)
  next
    case False
    then have nn: "0 \<le> ?ns" by simp
    have pos: "0 < nat ?ns" using sizes_next[OF si nn] by simp
    note r = rehash_props[OF pos len]
    have m: "mset (concat (rehash hm (nat ?ns))) = mset (entries hm)" by (rule r(2))
    have "wf_hashmap (hm\<lparr> table := rehash hm (nat ?ns), size_index := size_index hm + 1,
                  size_hm := nat ?ns, resize_threshold := load_factor hm (nat ?ns) \<rparr>)"
      unfolding wf_hashmap_def entries_def
      using pos r(1) r(3) sizes_next[OF si nn] wf mset_eq_props(1)[OF m] mset_eq_props(2)[OF m] mset_eq_props(3)[OF m, of object]
      by (simp add: wf_hashmap_def entries_def)
    then show ?thesis using False by (simp add: hashmap_resize_def Let_def)
  qed
qed

lemma add_props:
  assumes wf: "wf_hashmap hm" and fresh: "object e \<notin> object ` set (entries hm)" and tg: "tag e \<noteq> 0"
  shows "wf_hashmap (hashmap_add ok (object e) e hm)"
    and "mset (entries (hashmap_add ok (object e) e hm)) = add_mset e (mset (entries hm))"
proof -
  note r = raw_add[OF wf fresh tg]
  show "wf_hashmap (hashmap_add ok (object e) e hm)"
    using r(1) by (simp add: hashmap_add_def Let_def resize_props(1))
  show "mset (entries (hashmap_add ok (object e) e hm)) = add_mset e (mset (entries hm))"
    using r by (simp add: hashmap_add_def Let_def resize_props(2))
qed

lemma find_flip: "List.find (\<lambda>entry. key = object entry) c = List.find (\<lambda>entry. object entry = key) c"
  by (induction c) auto

lemma unlink_props:
  "List.find (\<lambda>x. object x = k) c = Some e \<Longrightarrow> mset c = add_mset e (mset (unlink k c))"
  by (induction c) (auto split: if_splits)

lemma unlink_none:
  "List.find (\<lambda>x. object x = k) c = None \<Longrightarrow> unlink k c = c"
  by (induction c) (auto split: if_splits)

lemma set_tag_in_chain_objects [simp]: "map object (set_tag_in_chain k t c) = map object c"
  by (induction c) auto

lemma set_tag_in_chain_image: "object ` set (set_tag_in_chain k t c) = object ` set c"
  by (metis set_map set_tag_in_chain_objects)

lemma set_tag_in_chain_length [simp]: "length (set_tag_in_chain k t c) = length c"
  by (induction c) auto

lemma set_tag_in_chain_mset:
  "List.find (\<lambda>x. object x = k) c = Some e \<Longrightarrow>
   add_mset e (mset (set_tag_in_chain k t c)) = add_mset (e\<lparr>tag := t\<rparr>) (mset c)"
  by (induction c) (auto split: if_splits)

lemma map_concat_update_same:
  assumes "h < length tbl" "map f c = map f (tbl ! h)"
  shows "map f (concat (tbl[h := c])) = map f (concat tbl)"
proof -
  have "map f (concat (tbl[h := c])) = concat ((map (map f) tbl)[h := map f c])"
    by (simp add: map_concat map_update)
  also have "... = concat (map (map f) tbl)" using assms by (metis list_update_id nth_map)
  finally show ?thesis by (simp add: map_concat)
qed

lemma remove_props:
  assumes wf: "wf_hashmap hm" and f: "hashmap_find hm k = Some e"
  shows "fst (hashmap_remove k hm) = Some e"
    and "wf_hashmap (snd (hashmap_remove k hm))"
    and "mset (entries hm) = add_mset e (mset (entries (snd (hashmap_remove k hm))))"
proof -
  let ?h = "hash k (size_hm hm)"
  let ?c = "unlink k (table hm ! ?h)"
  let ?hm' = "hm\<lparr>table := (table hm)[?h := ?c], entry_count := entry_count hm - 1\<rparr>"
  have len: "length (table hm) = size_hm hm" and pos: "0 < size_hm hm"
    using wf by (simp_all add: wf_hashmap_def)
  have h: "?h < size_hm hm" using pos by (rule hash_less)
  have fc: "List.find (\<lambda>x. object x = k) (table hm ! ?h) = Some e"
    using f by (simp add: hashmap_find_def)
  have r: "hashmap_remove k hm = (Some e, ?hm')"
    using fc by (simp add: hashmap_remove_def Let_def find_flip)
  show "fst (hashmap_remove k hm) = Some e" using r by simp
  have mc: "mset (table hm ! ?h) = add_mset e (mset ?c)" by (rule unlink_props[OF fc])
  have "mset (concat ((table hm)[?h := ?c])) + mset (table hm ! ?h) = mset (concat (table hm)) + mset ?c"
    using h len by (simp add: mset_concat_update)
  then have m: "mset (entries hm) = add_mset e (mset (concat ((table hm)[?h := ?c])))"
    using mc by (simp add: entries_def)
  then have m': "mset (entries hm) = mset (e # concat ((table hm)[?h := ?c]))" by simp
  show "mset (entries hm) = add_mset e (mset (entries (snd (hashmap_remove k hm))))"
    using m r by (simp add: entries_def)
  have sub: "set ?c \<subseteq> set (table hm ! ?h)" using mc by (metis mset_eq_setD set_mset_mset set_mset_add_mset_insert subset_insertI)
  have c: "\<forall>x \<in> set ?c. hash (object x) (size_hm hm) = ?h"
    using wf h sub by (auto simp: wf_hashmap_def)
  have t: "\<forall>x \<in> set (concat ((table hm)[?h := ?c])). tag x \<noteq> 0"
    using wf mset_eq_props(1)[OF m'] by (auto simp: wf_hashmap_def)
  have d: "distinct (map object (concat ((table hm)[?h := ?c])))"
    using wf mset_eq_props(3)[OF m', of object] by (auto simp: wf_hashmap_def)
  have n: "entry_count hm - 1 = int (length (concat ((table hm)[?h := ?c])))"
    using wf mset_eq_props(2)[OF m'] by (auto simp: wf_hashmap_def)
  have "wf_hashmap ?hm'" by (rule wf_update_bucket[OF wf h c t d n])
  then show "wf_hashmap (snd (hashmap_remove k hm))" using r by simp
qed

lemma remove_absent:
  assumes "hashmap_find hm k = None"
  shows "hashmap_remove k hm = (None, hm)"
  using assms by (simp add: hashmap_remove_def hashmap_find_def Let_def find_flip)

lemma entry_set_tag_props:
  assumes wf: "wf_hashmap hm" and f: "hashmap_find hm k = Some e" and t0: "t \<noteq> 0"
  shows "wf_hashmap (entry_set_tag k t hm)"
    and "add_mset e (mset (entries (entry_set_tag k t hm))) = add_mset (e\<lparr>tag := t\<rparr>) (mset (entries hm))"
proof -
  let ?h = "hash k (size_hm hm)"
  let ?c = "set_tag_in_chain k t (table hm ! ?h)"
  have len: "length (table hm) = size_hm hm" and pos: "0 < size_hm hm"
    using wf by (simp_all add: wf_hashmap_def)
  have h: "?h < size_hm hm" using pos by (rule hash_less)
  have fc: "List.find (\<lambda>x. object x = k) (table hm ! ?h) = Some e"
    using f by (simp add: hashmap_find_def)
  have mc: "add_mset e (mset ?c) = add_mset (e\<lparr>tag := t\<rparr>) (mset (table hm ! ?h))"
    by (rule set_tag_in_chain_mset[OF fc])
  have "mset (concat ((table hm)[?h := ?c])) + mset (table hm ! ?h) = mset (concat (table hm)) + mset ?c"
    using h len by (simp add: mset_concat_update)
  then have "add_mset e (mset (concat ((table hm)[?h := ?c])) + mset (table hm ! ?h))
           = mset (concat (table hm)) + add_mset e (mset ?c)" by simp
  then have "add_mset e (mset (concat ((table hm)[?h := ?c]))) + mset (table hm ! ?h)
           = add_mset (e\<lparr>tag := t\<rparr>) (mset (concat (table hm))) + mset (table hm ! ?h)"
    unfolding mc by simp
  then have m: "add_mset e (mset (concat ((table hm)[?h := ?c]))) = add_mset (e\<lparr>tag := t\<rparr>) (mset (entries hm))"
    unfolding entries_def by (simp only: add_right_cancel)
  show "add_mset e (mset (entries (entry_set_tag k t hm))) = add_mset (e\<lparr>tag := t\<rparr>) (mset (entries hm))"
    using m by (simp add: entry_set_tag_def Let_def entries_def)
  have obj: "map object (concat ((table hm)[?h := ?c])) = map object (concat (table hm))"
    using h len by (intro map_concat_update_same) simp_all
  have c: "\<forall>x \<in> set ?c. hash (object x) (size_hm hm) = ?h"
  proof
    fix x assume "x \<in> set ?c"
    moreover have "object ` set ?c = object ` set (table hm ! ?h)"
      by (rule set_tag_in_chain_image)
    ultimately have "object x \<in> object ` set (table hm ! ?h)" by blast
    then show "hash (object x) (size_hm hm) = ?h" using wf h by (auto simp: wf_hashmap_def)
  qed
  have "set (concat ((table hm)[?h := ?c])) \<subseteq> insert (e\<lparr>tag := t\<rparr>) (set (entries hm))"
  proof
    fix x assume "x \<in> set (concat ((table hm)[?h := ?c]))"
    then have "x \<in># add_mset e (mset (concat ((table hm)[?h := ?c])))" by simp
    then have "x \<in># add_mset (e\<lparr>tag := t\<rparr>) (mset (entries hm))" unfolding m .
    then show "x \<in> insert (e\<lparr>tag := t\<rparr>) (set (entries hm))" by simp
  qed
  then have t: "\<forall>x \<in> set (concat ((table hm)[?h := ?c])). tag x \<noteq> 0"
    using wf t0 by (auto simp: wf_hashmap_def)
  have d: "distinct (map object (concat ((table hm)[?h := ?c])))"
    unfolding obj using wf by (simp add: wf_hashmap_def entries_def)
  have "length (map object (concat ((table hm)[?h := ?c]))) = length (map object (concat (table hm)))"
    unfolding obj ..
  then have n: "entry_count hm = int (length (concat ((table hm)[?h := ?c])))"
    using wf by (simp add: wf_hashmap_def entries_def)
  have "wf_hashmap (hm\<lparr>table := (table hm)[?h := ?c], entry_count := entry_count hm\<rparr>)"
    by (rule wf_update_bucket[OF wf h c t d n])
  then show "wf_hashmap (entry_set_tag k t hm)" by (simp add: entry_set_tag_def Let_def)
qed

lemma find_cong_wf:
  assumes "wf_hashmap hm" "wf_hashmap hm'"
    and "\<And>x. object x = k \<Longrightarrow> x \<in> set (entries hm') \<longleftrightarrow> x \<in> set (entries hm)"
  shows "hashmap_find hm' k = hashmap_find hm k"
proof (cases "hashmap_find hm k")
  case None
  then have "k \<notin> object ` set (entries hm)" using find_None_iff_wf[OF assms(1)] by simp
  then have "k \<notin> object ` set (entries hm')" using assms(3) by auto
  then show ?thesis using None find_None_iff_wf[OF assms(2)] by simp
next
  case (Some e)
  then have "e \<in> set (entries hm) \<and> object e = k" using find_Some_iff_wf[OF assms(1)] by simp
  then have "e \<in> set (entries hm') \<and> object e = k" using assms(3) by auto
  then show ?thesis using Some find_Some_iff_wf[OF assms(2)] by simp
qed

lemma find_after_add:
  assumes wf: "wf_hashmap hm" and fresh: "object e \<notin> object ` set (entries hm)" and tg: "tag e \<noteq> 0"
  shows "hashmap_find (hashmap_add ok (object e) e hm) k = (if k = object e then Some e else hashmap_find hm k)"
proof -
  let ?hm' = "hashmap_add ok (object e) e hm"
  note p = add_props[OF wf fresh tg, of ok]
  have s: "set (entries ?hm') = insert e (set (entries hm))"
    using p(2) by (metis set_mset_mset set_mset_add_mset_insert)
  show ?thesis
  proof (cases "k = object e")
    case True
    then show ?thesis using find_Some_iff_wf[OF p(1), of k e] s by simp
  next
    case False
    have "hashmap_find ?hm' k = hashmap_find hm k"
      by (rule find_cong_wf[OF wf p(1)]) (use False s in auto)
    then show ?thesis using False by simp
  qed
qed

lemma find_after_remove:
  assumes wf: "wf_hashmap hm" and f: "hashmap_find hm k0 = Some e"
  shows "hashmap_find (snd (hashmap_remove k0 hm)) k = (if k = k0 then None else hashmap_find hm k)"
proof -
  let ?hm' = "snd (hashmap_remove k0 hm)"
  note p = remove_props[OF wf f]
  have e: "e \<in> set (entries hm)" "object e = k0" using find_Some_iff_wf[OF wf] f by auto
  have s: "set (entries hm) = insert e (set (entries ?hm'))"
    using p(3) by (metis set_mset_mset set_mset_add_mset_insert)
  have "mset (map object (entries hm)) = mset (map object (e # entries ?hm'))"
    using p(3) by (metis mset.simps(2) mset_map)
  then have "distinct (map object (e # entries ?hm'))"
    using wf mset_eq_imp_distinct_iff unfolding wf_hashmap_def by blast
  then have notin: "k0 \<notin> object ` set (entries ?hm')" using e by simp
  show ?thesis
  proof (cases "k = k0")
    case True
    then show ?thesis using find_None_iff_wf[OF p(2), of k] notin by simp
  next
    case False
    have "hashmap_find ?hm' k = hashmap_find hm k"
      by (rule find_cong_wf[OF wf p(2)]) (use False s e in auto)
    then show ?thesis using False by simp
  qed
qed

lemma find_after_set_tag:
  assumes wf: "wf_hashmap hm" and f: "hashmap_find hm k0 = Some e" and t0: "t \<noteq> 0"
  shows "hashmap_find (entry_set_tag k0 t hm) k = (if k = k0 then Some (e\<lparr>tag := t\<rparr>) else hashmap_find hm k)"
proof -
  let ?hm' = "entry_set_tag k0 t hm"
  note p = entry_set_tag_props[OF wf f t0]
  have e: "e \<in> set (entries hm)" "object e = k0" using find_Some_iff_wf[OF wf] f by auto
  have s: "insert e (set (entries ?hm')) = insert (e\<lparr>tag := t\<rparr>) (set (entries hm))"
    using p(2) by (metis set_mset_mset set_mset_add_mset_insert)
  have d: "distinct (map object (entries hm))" using wf by (simp add: wf_hashmap_def)
  have uniq: "\<And>x. x \<in> set (entries hm) \<Longrightarrow> object x = k0 \<Longrightarrow> x = e"
    using find_Some_iff_wf[OF wf] f by (metis option.inject)
  show ?thesis
  proof (cases "k = k0")
    case True
    have "e\<lparr>tag := t\<rparr> \<in> set (entries ?hm')"
    proof (cases "e\<lparr>tag := t\<rparr> = e")
      case True
      have "size (mset (entries ?hm')) = size (mset (entries hm))" using p(2)
        by (metis size_add_mset nat.inject)
      have "add_mset e (mset (entries ?hm')) = add_mset e (mset (entries hm))" using p(2) True by simp
      then have "mset (entries ?hm') = mset (entries hm)" by simp
      then show ?thesis using e True by (metis mset_eq_setD)
    next
      case False
      then show ?thesis using s by blast
    qed
    then show ?thesis using True e find_Some_iff_wf[OF p(1), of k "e\<lparr>tag := t\<rparr>"] by simp
  next
    case False
    have "hashmap_find ?hm' k = hashmap_find hm k"
    proof (rule find_cong_wf[OF wf p(1)])
      fix x :: JvmtiTagHashmapEntry assume x: "object x = k"
      then have "x \<noteq> e" "x \<noteq> e\<lparr>tag := t\<rparr>" using False e by auto
      then show "x \<in> set (entries ?hm') \<longleftrightarrow> x \<in> set (entries hm)" using s by blast
    qed
    then show ?thesis using False by simp
  qed
qed

lemma create_entry_props:
  "object (fst (create_entry k t m)) = k" "tag (fst (create_entry k t m)) = t"
  "hashmap (snd (create_entry k t m)) = hashmap m"
  by (auto simp: create_entry_def split: list.splits)

lemma destroy_entry_hashmap [simp]: "hashmap (destroy_entry e m) = hashmap m"
  by (simp add: destroy_entry_def)

lemma set_tag_props:
  assumes wf: "wf_map m"
  shows "wf_map (set_tag om ok ob t m)"
    and "tag_for (set_tag om ok ob t m) k
         = (if k = klassOop_if_java_lang_Class om ob then t else tag_for m k)"
proof -
  let ?key = "klassOop_if_java_lang_Class om ob"
  have w: "wf_hashmap (hashmap m)" using wf by (simp add: wf_map_def)
  have "wf_map (set_tag om ok ob t m) \<and> tag_for (set_tag om ok ob t m) k
         = (if k = ?key then t else tag_for m k)"
  proof (cases "hashmap_find (hashmap m) ?key")
    case None
    show ?thesis
    proof (cases "t = 0")
      case True
      then show ?thesis using None wf by (simp add: set_tag_def tag_for_def)
    next
      case False
      let ?e = "fst (create_entry ?key t m)"
      let ?m1 = "snd (create_entry ?key t m)"
      note c = create_entry_props[of ?key t m]
      have fresh: "object ?e \<notin> object ` set (entries (hashmap m))"
        using None find_None_iff_wf[OF w] c(1) by simp
      have tg: "tag ?e \<noteq> 0" using False c(2) by simp
      have eq: "set_tag om ok ob t m = ?m1\<lparr>hashmap := hashmap_add ok (object ?e) ?e (hashmap m)\<rparr>"
        using None False c by (simp add: set_tag_def Let_def split_beta)
      show ?thesis unfolding eq
        using add_props(1)[OF w fresh tg, of ok] find_after_add[OF w fresh tg, of ok k] c
        by (simp add: wf_map_def tag_for_def)
    qed
  next
    case (Some e)
    show ?thesis
    proof (cases "t = 0")
      case True
      have eq: "hashmap (set_tag om ok ob t m) = snd (hashmap_remove ?key (hashmap m))"
        using Some True by (simp add: set_tag_def Let_def split_beta)
      show ?thesis
        using remove_props(2)[OF w Some] find_after_remove[OF w Some, of k] True eq
        by (simp add: wf_map_def tag_for_def)
    next
      case False
      have eq: "hashmap (set_tag om ok ob t m) = entry_set_tag ?key t (hashmap m)"
        using Some False by (simp add: set_tag_def Let_def)
      show ?thesis
        using entry_set_tag_props(1)[OF w Some False] find_after_set_tag[OF w Some False, of k] eq
        by (simp add: wf_map_def tag_for_def)
    qed
  qed
  then show "wf_map (set_tag om ok ob t m)"
    and "tag_for (set_tag om ok ob t m) k = (if k = ?key then t else tag_for m k)" by simp_all
qed

lemma tag_for_nonzero_iff:
  assumes "wf_hashmap (hashmap m)"
  shows "tag_for m k \<noteq> 0 \<longleftrightarrow> hashmap_find (hashmap m) k \<noteq> None"
proof (cases "hashmap_find (hashmap m) k")
  case None
  then show ?thesis by (simp add: tag_for_def)
next
  case (Some e)
  then have "e \<in> set (entries (hashmap m))" using find_Some_iff_wf[OF assms] by simp
  then have "tag e \<noteq> 0" using assms by (simp add: wf_hashmap_def)
  then show ?thesis using Some by (simp add: tag_for_def)
qed

lemma commit_props:
  assumes wf: "wf_map m" and en: "entry = hashmap_find (hashmap m) key"
  shows "wf_map (post_callback_tag_update ok key entry t m)"
    and "tag_for (post_callback_tag_update ok key entry t m) k = (if k = key then t else tag_for m k)"
    and "k \<noteq> key \<Longrightarrow> hashmap_find (hashmap (post_callback_tag_update ok key entry t m)) k
                         = hashmap_find (hashmap m) k"
proof -
  let ?m' = "post_callback_tag_update ok key entry t m"
  have w: "wf_hashmap (hashmap m)" using wf by (simp add: wf_map_def)
  have "wf_map ?m' \<and> hashmap_find (hashmap ?m') k =
          (if k = key then (if t = 0 then None
                            else Some (case entry of None \<Rightarrow> fst (create_entry key t m)
                                       | Some e \<Rightarrow> e\<lparr>tag := t\<rparr>))
           else hashmap_find (hashmap m) k)"
  proof (cases entry)
    case None
    show ?thesis
    proof (cases "t = 0")
      case True
      then show ?thesis using None wf en by (simp add: post_callback_tag_update_def)
    next
      case False
      let ?e = "fst (create_entry key t m)"
      let ?m1 = "snd (create_entry key t m)"
      note c = create_entry_props[of key t m]
      have fresh: "object ?e \<notin> object ` set (entries (hashmap m))"
        using None en find_None_iff_wf[OF w] c(1) by simp
      have tg: "tag ?e \<noteq> 0" using False c(2) by simp
      have eq: "?m' = ?m1\<lparr>hashmap := hashmap_add ok (object ?e) ?e (hashmap m)\<rparr>"
        using None False c by (simp add: post_callback_tag_update_def Let_def split_beta)
      show ?thesis unfolding eq
        using add_props(1)[OF w fresh tg, of ok] find_after_add[OF w fresh tg, of ok k] c None False
        by (simp add: wf_map_def)
    qed
  next
    case (Some e)
    then have f: "hashmap_find (hashmap m) key = Some e" using en by simp
    show ?thesis
    proof (cases "t = 0")
      case True
      have eq: "hashmap ?m' = snd (hashmap_remove key (hashmap m))"
        using Some True by (simp add: post_callback_tag_update_def Let_def split_beta)
      show ?thesis
        using remove_props(2)[OF w f] find_after_remove[OF w f, of k] True eq
        by (simp add: wf_map_def)
    next
      case False
      show ?thesis
      proof (cases "t = tag e")
        case True
        then have "?m' = m" using Some False by (simp add: post_callback_tag_update_def)
        moreover have "e\<lparr>tag := t\<rparr> = e" using True by simp
        ultimately show ?thesis using wf f Some False by simp
      next
        case ne: False
        have eq: "hashmap ?m' = entry_set_tag key t (hashmap m)"
          using Some False ne by (simp add: post_callback_tag_update_def Let_def)
        show ?thesis
          using entry_set_tag_props(1)[OF w f False] find_after_set_tag[OF w f False, of k] eq Some False
          by (simp add: wf_map_def)
      qed
    qed
  qed
  then have a: "wf_map ?m'" and b: "hashmap_find (hashmap ?m') k =
          (if k = key then (if t = 0 then None
                            else Some (case entry of None \<Rightarrow> fst (create_entry key t m)
                                       | Some e \<Rightarrow> e\<lparr>tag := t\<rparr>))
           else hashmap_find (hashmap m) k)" by simp_all
  show "wf_map ?m'" by (rule a)
  show "k \<noteq> key \<Longrightarrow> hashmap_find (hashmap ?m') k = hashmap_find (hashmap m) k" using b by simp
  show "tag_for ?m' k = (if k = key then t else tag_for m k)"
    unfolding tag_for_def b using create_entry_props(2)[of key t m]
    by (auto split: option.splits)
qed

lemma sizes_0: "sizes ! 0 = 4801" by (simp add: sizes_def)

lemma new_props:
  assumes "JvmtiTagMap_new tr ok lf mx = Some m"
  shows "wf_map m" and "entries (hashmap m) = []" and "tag_for m k = 0"
proof -
  have m: "m = \<lparr> hashmap = \<lparr> size_hm = 4801, size_index = 0, entry_count = 0, load_factor = lf,
                  resize_threshold = lf 4801, resizing_enabled = True,
                  trace_threshold = (if tr then initial_trace_threshold else -1),
                  table = replicate 4801 [] \<rparr>,
                free_entries = [], free_entries_count = 0, max_free_entries = mx \<rparr>"
    using assms by (auto simp: JvmtiTagMap_new_def hashmap_init_def sizes_0 Let_def split: if_splits)
  show e: "entries (hashmap m) = []" unfolding m by (simp add: entries_def)
  show "wf_map m" unfolding wf_map_def wf_hashmap_def e unfolding m by (simp add: sizes_0)
  have "hash k 4801 < 4801" by (rule hash_less) simp
  then show "tag_for m k = 0" unfolding m by (simp add: tag_for_def hashmap_find_def)
qed

lemma set_tags_keyed:
  assumes "wf_map m"
  shows "wf_map (set_tags om calls m) \<and>
         tag_for (set_tags om calls m) k =
           (case most_recent k (map (apfst (klassOop_if_java_lang_Class om)) calls) of
              Some t \<Rightarrow> t | None \<Rightarrow> tag_for m k)"
  using assms
proof (induction calls arbitrary: m)
  case Nil
  then show ?case by simp
next
  case (Cons c calls)
  obtain ob t ok where c: "c = (ob, t, ok)" by (cases c)
  note p = set_tag_props[OF Cons.prems, of om ok ob t]
  note ih = Cons.IH[OF p(1)]
  show ?case using ih p(2)[of k] by (auto simp: c split: option.splits)
qed

lemma most_recent_inj:
  assumes "inj_on g (insert ob (fst ` set calls))"
  shows "most_recent (g ob) (map (apfst g) calls) = most_recent ob calls"
  using assms
proof (induction calls)
  case Nil
  then show ?case by simp
next
  case (Cons c calls)
  obtain ob' t ok where c: "c = (ob', t, ok)" by (cases c)
  have i: "inj_on g (insert ob (fst ` set calls))"
    using Cons.prems by (rule inj_on_subset) auto
  have "g ob' = g ob \<longleftrightarrow> ob' = ob" using Cons.prems by (auto simp: c inj_on_def)
  then show ?case using Cons.IH[OF i] by (simp add: c)
qed

lemma entry_set_tag_shape:
  assumes "hash k (size_hm hm) < length (table hm)"
  shows "map (map object) (table (entry_set_tag k t hm)) = map (map object) (table hm)"
    and "entry_count (entry_set_tag k t hm) = entry_count hm"
    and "size_hm (entry_set_tag k t hm) = size_hm hm"
proof -
  let ?h = "hash k (size_hm hm)"
  have "map (map object) ((table hm)[?h := set_tag_in_chain k t (table hm ! ?h)])
        = (map (map object) (table hm))[?h := map object (table hm ! ?h)]"
    by (simp add: map_update)
  also have "... = map (map object) (table hm)" using assms by (metis list_update_id nth_map)
  finally show "map (map object) (table (entry_set_tag k t hm)) = map (map object) (table hm)"
    by (simp add: entry_set_tag_def Let_def)
  show "entry_count (entry_set_tag k t hm) = entry_count hm" by (simp add: entry_set_tag_def Let_def)
  show "size_hm (entry_set_tag k t hm) = size_hm hm" by (simp add: entry_set_tag_def Let_def)
qed

lemma callback_scope_eq:
  "callback_scope om oop_size ok ob t m =
     post_callback_tag_update ok (klassOop_if_java_lang_Class om ob)
       (hashmap_find (hashmap m) (klassOop_if_java_lang_Class om ob)) t m"
  by (simp add: callback_scope_def CallbackWrapper_destroy_def CallbackWrapper_new_def Let_def)

lemma wrapper_reads_tag:
  "w_obj_tag (CallbackWrapper_new om oop_size m ob) = tag_for m (klassOop_if_java_lang_Class om ob)"
  by (simp add: CallbackWrapper_new_def Let_def tag_for_def)

lemma concat_replicate_update:
  "i < n \<Longrightarrow> concat ((replicate n [])[i := c]) = c"
  by (simp add: upd_conv_take_nth_drop)

lemma hash_8: "hash 8 4801 = 1"
  by (simp add: hash_def)

lemma entries_one_tag_map: "entries (hashmap one_tag_map) = [\<lparr>object = 8, tag = 5\<rparr>]"
  by (simp add: entries_def one_tag_map_def concat_replicate_update)

lemma wf_one_tag_map: "wf_map one_tag_map"
  unfolding wf_map_def wf_hashmap_def entries_def
  by (simp add: one_tag_map_def concat_replicate_update sizes_0 nth_list_update hash_8)

lemma wf_full_pool_map: "wf_map full_pool_map"
  using wf_one_tag_map by (simp add: wf_map_def full_pool_map_def)

lemma find_one_tag_map: "hashmap_find (hashmap one_tag_map) 8 = Some \<lparr>object = 8, tag = 5\<rparr>"
  by (simp add: hashmap_find_def one_tag_map_def hash_8)

lemma tag_for_full_pool_map: "tag_for full_pool_map 8 = 5"
  using find_one_tag_map by (simp add: tag_for_def full_pool_map_def)

lemma the_table_put [simp]: "the_table (put_table tbl s) = tbl"
  by (simp add: the_table_def put_table_def)

lemma put_table_fields [simp]:
  "delayed_add (put_table tbl s) = delayed_add s"
  "object_free_events (put_table tbl s) = object_free_events s"
  "is_alive_calls (put_table tbl s) = is_alive_calls s"
  "entry_count (hashmap (tag_map (put_table tbl s))) = entry_count (hashmap (tag_map s))"
  "same_settings hm (hashmap (tag_map (put_table tbl s))) = same_settings hm (hashmap (tag_map s))"
  "same_settings (hashmap (tag_map (put_table tbl s))) hm = same_settings (hashmap (tag_map s)) hm"
  "free_entries (tag_map (put_table tbl s)) = free_entries (tag_map s)"
  "free_entries_count (tag_map (put_table tbl s)) = free_entries_count (tag_map s)"
  "max_free_entries (tag_map (put_table tbl s)) = max_free_entries (tag_map s)"
  by (simp_all add: put_table_def same_settings_def)

lemma the_table_upd [simp]:
  "the_table (s\<lparr>is_alive_calls := c\<rparr>) = the_table s"
  "the_table (s\<lparr>delayed_add := d\<rparr>) = the_table s"
  "the_table (s\<lparr>object_free_events := ev\<rparr>) = the_table s"
  by (simp_all add: the_table_def)

lemma same_settings_refl [simp]: "same_settings hm hm"
  by (simp add: same_settings_def)

lemma same_settings_trans: "same_settings a b \<Longrightarrow> same_settings b c \<Longrightarrow> same_settings a c"
  by (simp add: same_settings_def)

lemma link_at_head_other:
  "hash (object e) n \<noteq> b \<Longrightarrow> link_at_head n tbl e ! b = tbl ! b"
  by (simp add: link_at_head_def Let_def)

lemma link_at_head_update_swap:
  "hash (object e) n \<noteq> b \<Longrightarrow> (link_at_head n tbl e)[b := x] = link_at_head n (tbl[b := x]) e"
  by (simp add: link_at_head_def Let_def list_update_swap)

lemma foldl_link_other:
  "\<forall>e \<in> set es. hash (object e) n \<noteq> b \<Longrightarrow> foldl (link_at_head n) tbl es ! b = tbl ! b"
  by (induction es arbitrary: tbl) (simp_all add: link_at_head_other)

lemma foldl_link_update_swap:
  "\<forall>e \<in> set es. hash (object e) n \<noteq> b \<Longrightarrow>
   (foldl (link_at_head n) tbl es)[b := x] = foldl (link_at_head n) (tbl[b := x]) es"
  by (induction es arbitrary: tbl) (simp_all add: link_at_head_update_swap)

lemma foldl_link_length [simp]: "length (foldl (link_at_head n) tbl es) = length tbl"
  by (induction es arbitrary: tbl) (simp_all add: link_at_head_def Let_def)

lemma survivors_Cons:
  "survivors ia f (e # c) = (if ia (object e) then relocated f e # survivors ia f c else survivors ia f c)"
  by (simp add: survivors_def)

lemma survivors_Nil [simp]: "survivors ia f [] = []"
  by (simp add: survivors_def)

lemma dead_tags_Cons:
  "dead_tags ia (e # c) = (if ia (object e) then dead_tags ia c else tag e # dead_tags ia c)"
  by (simp add: dead_tags_def)

lemma dead_tags_Nil [simp]: "dead_tags ia [] = []"
  by (simp add: dead_tags_def)

lemma scan_chain_props:
  assumes "length (the_table s) = n" "pos < n" "the_table s ! pos = prev @ rest"
    and "\<forall>e \<in> set rest. tag e \<noteq> 0"
  shows "\<exists>s'. scan_chain pof ia f n pos prev rest s = Some s' \<and>
           the_table s' = foldl (link_at_head n)
                            ((the_table s)[pos := prev @ staying n pos (survivors ia f rest)])
                            (going_down n pos (survivors ia f rest)) \<and>
           delayed_add s' = rev (going_up n pos (survivors ia f rest)) @ delayed_add s \<and>
           is_alive_calls s' = is_alive_calls s @ map object rest \<and>
           object_free_events s' = object_free_events s @ (if pof then dead_tags ia rest else []) \<and>
           entry_count (hashmap (tag_map s')) =
             entry_count (hashmap (tag_map s)) - int (length (dead_tags ia rest)) \<and>
           same_settings (hashmap (tag_map s)) (hashmap (tag_map s')) \<and>
           max_free_entries (tag_map s') = max_free_entries (tag_map s)"
  using assms
proof (induction rest arbitrary: prev s)
  case Nil
  have "(the_table s)[pos := prev] = the_table s"
    using Nil.prems(3) by (metis append_Nil2 list_update_id)
  then show ?case by (simp add: staying_def going_down_def going_up_def)
next
  case (Cons entry "next")
  let ?s0 = "s\<lparr>is_alive_calls := is_alive_calls s @ [object entry]\<rparr>"
  let ?tbl = "the_table s"
  have tg: "tag entry \<noteq> 0" and tgs: "\<forall>e \<in> set next. tag e \<noteq> 0" using Cons.prems(4) by simp_all
  have posl: "pos < length ?tbl" using Cons.prems by simp
  show ?case
  proof (cases "ia (object entry)")
    case False
    let ?m = "tag_map ?s0"
    let ?hm = "(hashmap ?m)\<lparr> table := (table (hashmap ?m))[pos := prev @ next],
                             entry_count := entry_count (hashmap ?m) - 1 \<rparr>"
    let ?s1 = "?s0\<lparr> tag_map := destroy_entry entry (?m\<lparr>hashmap := ?hm\<rparr>),
                    object_free_events := (if pof then object_free_events ?s0 @ [tag entry]
                                            else object_free_events ?s0) \<rparr>"
    have se: "scan_entry pof ia f n pos prev entry next s = Some (prev, ?s1)"
      using False tg by (simp add: scan_entry_def Let_def)
    have t1: "the_table ?s1 = ?tbl[pos := prev @ next]" by (simp add: the_table_def)
    have l1: "length (the_table ?s1) = n" using Cons.prems(1) t1 by simp
    have c1: "the_table ?s1 ! pos = prev @ next" using posl t1 by simp
    obtain s' where ih: "scan_chain pof ia f n pos prev next ?s1 = Some s'"
      "the_table s' = foldl (link_at_head n)
                            ((the_table ?s1)[pos := prev @ staying n pos (survivors ia f next)])
                            (going_down n pos (survivors ia f next))"
      "delayed_add s' = rev (going_up n pos (survivors ia f next)) @ delayed_add ?s1"
      "is_alive_calls s' = is_alive_calls ?s1 @ map object next"
      "object_free_events s' = object_free_events ?s1 @ (if pof then dead_tags ia next else [])"
      "entry_count (hashmap (tag_map s')) =
             entry_count (hashmap (tag_map ?s1)) - int (length (dead_tags ia next))"
      "same_settings (hashmap (tag_map ?s1)) (hashmap (tag_map s'))"
      "max_free_entries (tag_map s') = max_free_entries (tag_map ?s1)"
      using Cons.IH[OF l1 Cons.prems(2) c1 tgs] by blast
    have ss: "same_settings (hashmap (tag_map s)) (hashmap (tag_map ?s1))"
      by (simp add: same_settings_def destroy_entry_def)
    have "scan_chain pof ia f n pos prev (entry # next) s = Some s'" using se ih(1) by simp
    moreover have "the_table s' = foldl (link_at_head n)
                            (?tbl[pos := prev @ staying n pos (survivors ia f (entry # next))])
                            (going_down n pos (survivors ia f (entry # next)))"
      using ih(2)[unfolded t1] False by (simp add: survivors_Cons)
    moreover have "delayed_add s' = rev (going_up n pos (survivors ia f (entry # next))) @ delayed_add s"
      using ih(3) False by (simp add: survivors_Cons)
    moreover have "is_alive_calls s' = is_alive_calls s @ map object (entry # next)"
      using ih(4) by simp
    moreover have "object_free_events s' = object_free_events s @ (if pof then dead_tags ia (entry # next) else [])"
      using ih(5) False by (simp add: dead_tags_Cons)
    moreover have "entry_count (hashmap (tag_map s')) =
             entry_count (hashmap (tag_map s)) - int (length (dead_tags ia (entry # next)))"
      using ih(6) False by (simp add: dead_tags_Cons destroy_entry_def)
    moreover have "same_settings (hashmap (tag_map s)) (hashmap (tag_map s'))"
      using same_settings_trans[OF ss ih(7)] .
    moreover have "max_free_entries (tag_map s') = max_free_entries (tag_map s)"
      using ih(8) by (simp add: destroy_entry_def)
    ultimately show ?thesis by blast
  next
    case True
    let ?moved = "relocated f entry"
    let ?np = "hash (f (object entry)) n"
    have hm: "hash (object ?moved) n = ?np" by (simp add: relocated_def)
    have mv: "entry\<lparr>object := f (object entry)\<rparr> = ?moved" by (simp add: relocated_def)
    consider (down) "?np < pos" | (same) "?np = pos" | (up) "pos < ?np" by linarith
    then show ?thesis
    proof cases
      case down
      let ?tbl1 = "?tbl[pos := prev @ next]"
      let ?s1 = "put_table (?tbl1[?np := ?moved # ?tbl1 ! ?np]) ?s0"
      have se: "scan_entry pof ia f n pos prev entry next s = Some (prev, ?s1)"
        using True down by (simp add: scan_entry_def Let_def mv)
      have t1: "the_table ?s1 = link_at_head n ?tbl1 ?moved"
        by (simp add: link_at_head_def Let_def hm)
      have l1: "length (the_table ?s1) = n" using Cons.prems(1) by simp
      have c1: "the_table ?s1 ! pos = prev @ next" using posl down by simp
      obtain s' where ih: "scan_chain pof ia f n pos prev next ?s1 = Some s'"
        "the_table s' = foldl (link_at_head n)
                            ((the_table ?s1)[pos := prev @ staying n pos (survivors ia f next)])
                            (going_down n pos (survivors ia f next))"
        "delayed_add s' = rev (going_up n pos (survivors ia f next)) @ delayed_add ?s1"
        "is_alive_calls s' = is_alive_calls ?s1 @ map object next"
        "object_free_events s' = object_free_events ?s1 @ (if pof then dead_tags ia next else [])"
        "entry_count (hashmap (tag_map s')) =
             entry_count (hashmap (tag_map ?s1)) - int (length (dead_tags ia next))"
        "same_settings (hashmap (tag_map ?s1)) (hashmap (tag_map s'))"
        "max_free_entries (tag_map s') = max_free_entries (tag_map ?s1)"
        using Cons.IH[OF l1 Cons.prems(2) c1 tgs] by blast
      have sw: "(the_table ?s1)[pos := prev @ staying n pos (survivors ia f next)]
             = link_at_head n (?tbl[pos := prev @ staying n pos (survivors ia f next)]) ?moved"
        unfolding t1 using down hm by (simp add: link_at_head_update_swap)
      have "scan_chain pof ia f n pos prev (entry # next) s = Some s'" using se ih(1) by simp
      moreover have "the_table s' = foldl (link_at_head n)
                            (?tbl[pos := prev @ staying n pos (survivors ia f (entry # next))])
                            (going_down n pos (survivors ia f (entry # next)))"
        using ih(2) True down hm unfolding sw
        by (simp add: survivors_Cons staying_def going_down_def)
      moreover have "delayed_add s' = rev (going_up n pos (survivors ia f (entry # next))) @ delayed_add s"
        using ih(3) True down hm by (simp add: survivors_Cons going_up_def)
      moreover have "is_alive_calls s' = is_alive_calls s @ map object (entry # next)"
        using ih(4) by simp
      moreover have "object_free_events s' = object_free_events s @ (if pof then dead_tags ia (entry # next) else [])"
        using ih(5) True by (simp add: dead_tags_Cons)
      moreover have "entry_count (hashmap (tag_map s')) =
             entry_count (hashmap (tag_map s)) - int (length (dead_tags ia (entry # next)))"
        using ih(6) True by (simp add: dead_tags_Cons)
      moreover have "same_settings (hashmap (tag_map s)) (hashmap (tag_map s'))"
        using ih(7) by simp
      moreover have "max_free_entries (tag_map s') = max_free_entries (tag_map s)"
        using ih(8) by simp
      ultimately show ?thesis by blast
    next
      case same
      let ?s1 = "put_table (?tbl[pos := prev @ ?moved # next]) ?s0"
      have se: "scan_entry pof ia f n pos prev entry next s = Some (prev @ [?moved], ?s1)"
        using True same by (simp add: scan_entry_def Let_def mv)
      have l1: "length (the_table ?s1) = n" using Cons.prems(1) by simp
      have c1: "the_table ?s1 ! pos = (prev @ [?moved]) @ next" using posl by simp
      obtain s' where ih: "scan_chain pof ia f n pos (prev @ [?moved]) next ?s1 = Some s'"
        "the_table s' = foldl (link_at_head n)
                            ((the_table ?s1)[pos := (prev @ [?moved]) @ staying n pos (survivors ia f next)])
                            (going_down n pos (survivors ia f next))"
        "delayed_add s' = rev (going_up n pos (survivors ia f next)) @ delayed_add ?s1"
        "is_alive_calls s' = is_alive_calls ?s1 @ map object next"
        "object_free_events s' = object_free_events ?s1 @ (if pof then dead_tags ia next else [])"
        "entry_count (hashmap (tag_map s')) =
             entry_count (hashmap (tag_map ?s1)) - int (length (dead_tags ia next))"
        "same_settings (hashmap (tag_map ?s1)) (hashmap (tag_map s'))"
        "max_free_entries (tag_map s') = max_free_entries (tag_map ?s1)"
        using Cons.IH[OF l1 Cons.prems(2) c1 tgs] by blast
      have "scan_chain pof ia f n pos prev (entry # next) s = Some s'" using se ih(1) by simp
      moreover have "the_table s' = foldl (link_at_head n)
                            (?tbl[pos := prev @ staying n pos (survivors ia f (entry # next))])
                            (going_down n pos (survivors ia f (entry # next)))"
        using ih(2) True same hm by (simp add: survivors_Cons staying_def going_down_def)
      moreover have "delayed_add s' = rev (going_up n pos (survivors ia f (entry # next))) @ delayed_add s"
        using ih(3) True same hm by (simp add: survivors_Cons going_up_def)
      moreover have "is_alive_calls s' = is_alive_calls s @ map object (entry # next)"
        using ih(4) by simp
      moreover have "object_free_events s' = object_free_events s @ (if pof then dead_tags ia (entry # next) else [])"
        using ih(5) True by (simp add: dead_tags_Cons)
      moreover have "entry_count (hashmap (tag_map s')) =
             entry_count (hashmap (tag_map s)) - int (length (dead_tags ia (entry # next)))"
        using ih(6) True by (simp add: dead_tags_Cons)
      moreover have "same_settings (hashmap (tag_map s)) (hashmap (tag_map s'))"
        using ih(7) by simp
      moreover have "max_free_entries (tag_map s') = max_free_entries (tag_map s)"
        using ih(8) by simp
      ultimately show ?thesis by blast
    next
      case up
      let ?tbl1 = "?tbl[pos := prev @ next]"
      let ?s1 = "(put_table ?tbl1 ?s0)\<lparr>delayed_add := ?moved # delayed_add ?s0\<rparr>"
      have se: "scan_entry pof ia f n pos prev entry next s = Some (prev, ?s1)"
        using True up by (simp add: scan_entry_def Let_def mv)
      have l1: "length (the_table ?s1) = n" using Cons.prems(1) by simp
      have c1: "the_table ?s1 ! pos = prev @ next" using posl by simp
      obtain s' where ih: "scan_chain pof ia f n pos prev next ?s1 = Some s'"
        "the_table s' = foldl (link_at_head n)
                            ((the_table ?s1)[pos := prev @ staying n pos (survivors ia f next)])
                            (going_down n pos (survivors ia f next))"
        "delayed_add s' = rev (going_up n pos (survivors ia f next)) @ delayed_add ?s1"
        "is_alive_calls s' = is_alive_calls ?s1 @ map object next"
        "object_free_events s' = object_free_events ?s1 @ (if pof then dead_tags ia next else [])"
        "entry_count (hashmap (tag_map s')) =
             entry_count (hashmap (tag_map ?s1)) - int (length (dead_tags ia next))"
        "same_settings (hashmap (tag_map ?s1)) (hashmap (tag_map s'))"
        "max_free_entries (tag_map s') = max_free_entries (tag_map ?s1)"
        using Cons.IH[OF l1 Cons.prems(2) c1 tgs] by blast
      have "scan_chain pof ia f n pos prev (entry # next) s = Some s'" using se ih(1) by simp
      moreover have "the_table s' = foldl (link_at_head n)
                            (?tbl[pos := prev @ staying n pos (survivors ia f (entry # next))])
                            (going_down n pos (survivors ia f (entry # next)))"
        using ih(2) True up hm by (simp add: survivors_Cons staying_def going_down_def)
      moreover have "delayed_add s' = rev (going_up n pos (survivors ia f (entry # next))) @ delayed_add s"
        using ih(3) True up hm by (simp add: survivors_Cons going_up_def)
      moreover have "is_alive_calls s' = is_alive_calls s @ map object (entry # next)"
        using ih(4) by simp
      moreover have "object_free_events s' = object_free_events s @ (if pof then dead_tags ia (entry # next) else [])"
        using ih(5) True by (simp add: dead_tags_Cons)
      moreover have "entry_count (hashmap (tag_map s')) =
             entry_count (hashmap (tag_map s)) - int (length (dead_tags ia (entry # next)))"
        using ih(6) True by (simp add: dead_tags_Cons)
      moreover have "same_settings (hashmap (tag_map s)) (hashmap (tag_map s'))"
        using ih(7) by simp
      moreover have "max_free_entries (tag_map s') = max_free_entries (tag_map s)"
        using ih(8) by simp
      ultimately show ?thesis by blast
    qed
  qed
qed

lemma scan_table_append:
  "scan_table pof ia f n (xs @ ys) s =
     (case scan_table pof ia f n xs s of None \<Rightarrow> None | Some s' \<Rightarrow> scan_table pof ia f n ys s')"
  by (induction xs arbitrary: s) (auto split: option.splits)

lemma all_down_Suc: "all_down ia f T (Suc p) = all_down ia f T p @ going_down (length T) p (survivors ia f (T ! p))"
  by (simp add: all_down_def)

lemma all_up_Suc: "all_up ia f T (Suc p) = all_up ia f T p @ going_up (length T) p (survivors ia f (T ! p))"
  by (simp add: all_up_def)

lemma first_buckets_Suc: "first_buckets T (Suc p) = first_buckets T p @ T ! p"
  by (simp add: first_buckets_def)

lemma first_buckets_all: "first_buckets T (length T) = concat T"
  by (simp add: first_buckets_def map_nth)

lemma all_down_hash: "e \<in> set (all_down ia f T p) \<Longrightarrow> hash (object e) (length T) < p"
  by (auto simp: all_down_def going_down_def)

lemma stay_table_length [simp]: "length (stay_table ia f T p) = length T"
  by (simp add: stay_table_def)

lemma stay_table_nth:
  "b < length T \<Longrightarrow> stay_table ia f T p ! b =
     (if b < p then staying (length T) b (survivors ia f (T ! b)) else T ! b)"
  by (simp add: stay_table_def)

lemma stay_table_Suc:
  assumes "p < length T"
  shows "(stay_table ia f T p)[p := staying (length T) p (survivors ia f (T ! p))] = stay_table ia f T (Suc p)"
proof (rule nth_equalityI)
  show "length ((stay_table ia f T p)[p := staying (length T) p (survivors ia f (T ! p))])
        = length (stay_table ia f T (Suc p))" by simp
next
  fix i assume "i < length ((stay_table ia f T p)[p := staying (length T) p (survivors ia f (T ! p))])"
  then have i: "i < length T" by simp
  show "(stay_table ia f T p)[p := staying (length T) p (survivors ia f (T ! p))] ! i
        = stay_table ia f T (Suc p) ! i"
    using i assms by (cases "i = p") (auto simp: stay_table_nth nth_list_update)
qed

lemma stay_table_0: "stay_table ia f T 0 = T"
  by (simp add: stay_table_def map_nth)

lemma dead_tags_append [simp]: "dead_tags ia (xs @ ys) = dead_tags ia xs @ dead_tags ia ys"
  by (simp add: dead_tags_def)

lemma scan_table_props:
  assumes T: "the_table s = T" and p: "p \<le> length T"
    and tg: "\<forall>e \<in> set (concat T). tag e \<noteq> 0"
  shows "\<exists>s'. scan_table pof ia f (length T) [0..<p] s = Some s' \<and>
           the_table s' = foldl (link_at_head (length T)) (stay_table ia f T p) (all_down ia f T p) \<and>
           delayed_add s' = rev (all_up ia f T p) @ delayed_add s \<and>
           is_alive_calls s' = is_alive_calls s @ map object (first_buckets T p) \<and>
           object_free_events s' =
             object_free_events s @ (if pof then dead_tags ia (first_buckets T p) else []) \<and>
           entry_count (hashmap (tag_map s')) =
             entry_count (hashmap (tag_map s)) - int (length (dead_tags ia (first_buckets T p))) \<and>
           same_settings (hashmap (tag_map s)) (hashmap (tag_map s')) \<and>
           max_free_entries (tag_map s') = max_free_entries (tag_map s)"
  using p
proof (induction p)
  case 0
  then show ?case using T
    by (simp add: stay_table_0 all_down_def all_up_def first_buckets_def)
next
  case (Suc p)
  let ?n = "length T"
  have pl: "p < ?n" using Suc.prems by simp
  obtain s1 where ih: "scan_table pof ia f ?n [0..<p] s = Some s1"
    "the_table s1 = foldl (link_at_head ?n) (stay_table ia f T p) (all_down ia f T p)"
    "delayed_add s1 = rev (all_up ia f T p) @ delayed_add s"
    "is_alive_calls s1 = is_alive_calls s @ map object (first_buckets T p)"
    "object_free_events s1 = object_free_events s @ (if pof then dead_tags ia (first_buckets T p) else [])"
    "entry_count (hashmap (tag_map s1)) =
       entry_count (hashmap (tag_map s)) - int (length (dead_tags ia (first_buckets T p)))"
    "same_settings (hashmap (tag_map s)) (hashmap (tag_map s1))"
    "max_free_entries (tag_map s1) = max_free_entries (tag_map s)"
    using Suc.IH pl by auto
  have nd: "\<forall>e \<in> set (all_down ia f T p). hash (object e) ?n \<noteq> p"
    using all_down_hash[of _ ia f T p] by fastforce
  have l1: "length (the_table s1) = ?n" unfolding ih(2) by simp
  have c1: "the_table s1 ! p = [] @ T ! p"
    unfolding ih(2) foldl_link_other[OF nd] using pl by (simp add: stay_table_nth)
  have "T ! p \<in> set T" using pl by simp
  then have tgp: "\<forall>e \<in> set (T ! p). tag e \<noteq> 0" using tg by auto
  obtain s' where sc: "scan_chain pof ia f ?n p [] (T ! p) s1 = Some s'"
    "the_table s' = foldl (link_at_head ?n)
                      ((the_table s1)[p := [] @ staying ?n p (survivors ia f (T ! p))])
                      (going_down ?n p (survivors ia f (T ! p)))"
    "delayed_add s' = rev (going_up ?n p (survivors ia f (T ! p))) @ delayed_add s1"
    "is_alive_calls s' = is_alive_calls s1 @ map object (T ! p)"
    "object_free_events s' = object_free_events s1 @ (if pof then dead_tags ia (T ! p) else [])"
    "entry_count (hashmap (tag_map s')) =
       entry_count (hashmap (tag_map s1)) - int (length (dead_tags ia (T ! p)))"
    "same_settings (hashmap (tag_map s1)) (hashmap (tag_map s'))"
    "max_free_entries (tag_map s') = max_free_entries (tag_map s1)"
    using scan_chain_props[OF l1 pl c1 tgp, of pof ia f] by blast
  have tp: "the_table s1 ! p = T ! p" using c1 by simp
  have run: "scan_table pof ia f ?n [0..<Suc p] s = Some s'"
    using ih(1) sc(1) tp by (simp add: scan_table_append)
  have tbl: "the_table s' = foldl (link_at_head ?n) (stay_table ia f T (Suc p)) (all_down ia f T (Suc p))"
    unfolding sc(2) ih(2) all_down_Suc
    using foldl_link_update_swap[OF nd, of "stay_table ia f T p" "staying ?n p (survivors ia f (T ! p))"]
          stay_table_Suc[OF pl, of ia f]
    by simp
  show ?case
    using run tbl sc(3-8) ih(3-8) same_settings_trans[OF ih(7) sc(7)]
    by (auto simp: all_up_Suc first_buckets_Suc)
qed

lemma survivors_append [simp]: "survivors ia f (xs @ ys) = survivors ia f xs @ survivors ia f ys"
  by (simp add: survivors_def)

lemma three_way: "mset (staying n b c) + mset (going_down n b c) + mset (going_up n b c) = mset c"
proof (induction c)
  case Nil
  then show ?case by (simp add: staying_def going_down_def going_up_def)
next
  case (Cons e c)
  consider "hash (object e) n = b" | "hash (object e) n < b" | "b < hash (object e) n" by linarith
  then show ?case using Cons by cases (simp_all add: staying_def going_down_def going_up_def)
qed

lemma partition_buckets:
  "mset (concat (map (\<lambda>b. staying (length T) b (survivors ia f (T ! b))) [0..<p]))
     + mset (all_down ia f T p) + mset (all_up ia f T p)
   = mset (survivors ia f (first_buckets T p))"
proof (induction p)
  case 0
  then show ?case by (simp add: all_down_def all_up_def first_buckets_def)
next
  case (Suc p)
  let ?c = "survivors ia f (T ! p)"
  have "mset (concat (map (\<lambda>b. staying (length T) b (survivors ia f (T ! b))) [0..<Suc p]))
          + mset (all_down ia f T (Suc p)) + mset (all_up ia f T (Suc p))
        = (mset (concat (map (\<lambda>b. staying (length T) b (survivors ia f (T ! b))) [0..<p]))
            + mset (all_down ia f T p) + mset (all_up ia f T p))
          + (mset (staying (length T) p ?c) + mset (going_down (length T) p ?c)
              + mset (going_up (length T) p ?c))"
    by (simp add: all_down_Suc all_up_Suc)
  also have "... = mset (survivors ia f (first_buckets T p)) + mset ?c"
    unfolding Suc three_way ..
  finally show ?case by (simp add: first_buckets_Suc)
qed

lemma stay_table_full:
  "stay_table ia f T (length T) = map (\<lambda>b. staying (length T) b (survivors ia f (T ! b))) [0..<length T]"
  by (simp add: stay_table_def)

lemma stay_table_bucket:
  "\<forall>i < length T. \<forall>x \<in> set (stay_table ia f T (length T) ! i). hash (object x) (length T) = i"
  by (simp add: stay_table_full staying_def)

lemma survivors_tags: "\<forall>e \<in> set c. tag e \<noteq> 0 \<Longrightarrow> \<forall>e \<in> set (survivors ia f c). tag e \<noteq> 0"
  by (auto simp: survivors_def relocated_def)

lemma survivors_distinct:
  assumes "distinct (map object c)" "inj_on f {ob \<in> object ` set c. ia ob}"
  shows "distinct (map object (survivors ia f c))"
proof -
  have m: "map object (survivors ia f c) = map f (filter ia (map object c))"
    by (simp add: survivors_def relocated_def filter_map comp_def)
  have "distinct (filter ia (map object c))" using assms(1) by simp
  moreover have "inj_on f (set (filter ia (map object c)))"
    using assms(2) by (rule inj_on_subset) auto
  ultimately show ?thesis unfolding m by (simp add: distinct_map)
qed

lemma length_survivors_dead:
  "int (length (survivors ia f c)) = int (length c) - int (length (dead_tags ia c))"
proof -
  have "length c = length (filter (\<lambda>e. ia (object e)) c) + length (filter (\<lambda>e. \<not> ia (object e)) c)"
    by (rule sum_length_filter_compl[symmetric])
  then show ?thesis by (simp add: survivors_def dead_tags_def)
qed

lemma do_weak_oops_eq:
  "do_weak_oops pof ia f m =
     (if entry_count (hashmap m) = 0 then Some (pass_start m)
      else case scan_table pof ia f (size_hm (hashmap m)) [0..<size_hm (hashmap m)] (pass_start m) of
             None \<Rightarrow> None
           | Some s' \<Rightarrow> Some (re_add (size_hm (hashmap m)) s'))"
  by (simp add: do_weak_oops_def pass_start_def Let_def)

lemma pass_props:
  assumes wf: "wf_map m"
  defines "T \<equiv> table (hashmap m)"
  shows "\<exists>s1 s. scan_table pof ia f (length T) [0..<length T] (pass_start m) = Some s1 \<and>
           the_table s1 = foldl (link_at_head (length T)) (stay_table ia f T (length T))
                            (all_down ia f T (length T)) \<and>
           delayed_add s1 = rev (all_up ia f T (length T)) \<and>
           do_weak_oops pof ia f m = Some s \<and>
           the_table s = foldl (link_at_head (length T)) (the_table s1) (delayed_add s1) \<and>
           delayed_add s = [] \<and>
           is_alive_calls s = map object (concat T) \<and>
           object_free_events s = (if pof then dead_tags ia (concat T) else []) \<and>
           mset (concat (the_table s)) = mset (survivors ia f (concat T)) \<and>
           (\<forall>i < length T. \<forall>x \<in> set (the_table s ! i). hash (object x) (length T) = i) \<and>
           length (the_table s) = length T \<and>
           entry_count (hashmap (tag_map s)) = int (length (survivors ia f (concat T))) \<and>
           same_settings ((hashmap m)\<lparr>resizing_enabled := True\<rparr>) (hashmap (tag_map s)) \<and>
           max_free_entries (tag_map s) = max_free_entries m"
proof -
  let ?n = "length T"
  let ?s0 = "pass_start m"
  have w: "wf_hashmap (hashmap m)" using wf by (simp add: wf_map_def)
  have n: "size_hm (hashmap m) = ?n" and pos: "0 < ?n" using w by (simp_all add: wf_hashmap_def T_def)
  have tg: "\<forall>e \<in> set (concat T). tag e \<noteq> 0" using w by (simp add: wf_hashmap_def entries_def T_def)
  have cnt: "entry_count (hashmap m) = int (length (concat T))"
    using w by (simp add: wf_hashmap_def entries_def T_def)
  have t0: "the_table ?s0 = T" by (simp add: pass_start_def the_table_def T_def)
  obtain s1 where sc: "scan_table pof ia f ?n [0..<?n] ?s0 = Some s1"
    "the_table s1 = foldl (link_at_head ?n) (stay_table ia f T ?n) (all_down ia f T ?n)"
    "delayed_add s1 = rev (all_up ia f T ?n) @ delayed_add ?s0"
    "is_alive_calls s1 = is_alive_calls ?s0 @ map object (first_buckets T ?n)"
    "object_free_events s1 = object_free_events ?s0 @ (if pof then dead_tags ia (first_buckets T ?n) else [])"
    "entry_count (hashmap (tag_map s1)) =
       entry_count (hashmap (tag_map ?s0)) - int (length (dead_tags ia (first_buckets T ?n)))"
    "same_settings (hashmap (tag_map ?s0)) (hashmap (tag_map s1))"
    "max_free_entries (tag_map s1) = max_free_entries (tag_map ?s0)"
    using scan_table_props[OF t0 le_refl tg, of pof ia f] by blast
  have d1: "delayed_add s1 = rev (all_up ia f T ?n)" using sc(3) by (simp add: pass_start_def)
  let ?F = "foldl (link_at_head ?n) (the_table s1) (delayed_add s1)"
  have sl: "length (stay_table ia f T ?n) = ?n" by simp
  have sb: "\<forall>i < ?n. \<forall>x \<in> set (stay_table ia f T ?n ! i). hash (object x) ?n = i"
    by (rule stay_table_bucket)
  note a = foldl_link_props[OF pos sl sb, where es = "all_down ia f T ?n"]
  have l1: "length (the_table s1) = ?n" unfolding sc(2) by simp
  have b1: "\<forall>i < ?n. \<forall>x \<in> set (the_table s1 ! i). hash (object x) ?n = i"
    unfolding sc(2) using a by blast
  note b = foldl_link_props[OF pos l1 b1, where es = "delayed_add s1"]
  have mF: "mset (concat ?F) = mset (survivors ia f (concat T))"
  proof -
    have "mset (concat ?F) = mset (concat (stay_table ia f T ?n)) + mset (all_down ia f T ?n)
                              + mset (all_up ia f T ?n)"
      using a b unfolding sc(2) d1 by simp
    then show ?thesis
      using partition_buckets[of T ia f ?n] by (simp add: stay_table_full first_buckets_all)
  qed
  show ?thesis
  proof (cases "entry_count (hashmap m) = 0")
    case True
    then have e: "concat T = []" using cnt by simp
    then have allnil: "\<forall>c \<in> set T. c = []" by simp
    have nil: "T ! q = []" if "q < ?n" for q using allnil that nth_mem by blast
    have surv: "survivors ia f (T ! q) = []" if "q < ?n" for q using nil[OF that] by simp
    have up0: "all_up ia f T ?n = []"
      unfolding all_up_def using surv by (simp add: going_up_def)
    have down0: "all_down ia f T ?n = []"
      unfolding all_down_def using surv by (simp add: going_down_def)
    have st: "stay_table ia f T ?n = T"
    proof (rule nth_equalityI)
      show "length (stay_table ia f T ?n) = length T" by simp
    next
      fix i assume "i < length (stay_table ia f T ?n)"
      then have i: "i < ?n" by simp
      then have "T ! i = []" by (rule nil)
      then show "stay_table ia f T ?n ! i = T ! i" using i by (simp add: stay_table_nth staying_def)
    qed
    have dw: "do_weak_oops pof ia f m = Some ?s0" using True by (simp add: do_weak_oops_eq)
    have ts1: "the_table s1 = T" unfolding sc(2) st down0 by simp
    have ds1: "delayed_add s1 = []" unfolding d1 up0 by simp
    have bT: "\<forall>i < ?n. \<forall>x \<in> set (T ! i). hash (object x) ?n = i" using nil by simp
    have "the_table ?s0 = foldl (link_at_head ?n) (the_table s1) (delayed_add s1)"
      unfolding t0 ts1 ds1 by simp
    moreover have "delayed_add ?s0 = []" by (simp add: pass_start_def)
    moreover have "is_alive_calls ?s0 = map object (concat T)" unfolding e by (simp add: pass_start_def)
    moreover have "object_free_events ?s0 = (if pof then dead_tags ia (concat T) else [])"
      unfolding e by (simp add: pass_start_def)
    moreover have "mset (concat (the_table ?s0)) = mset (survivors ia f (concat T))"
      unfolding t0 e by simp
    moreover have "\<forall>i < ?n. \<forall>x \<in> set (the_table ?s0 ! i). hash (object x) ?n = i"
      unfolding t0 by (rule bT)
    moreover have "length (the_table ?s0) = ?n" unfolding t0 by simp
    moreover have "entry_count (hashmap (tag_map ?s0)) = int (length (survivors ia f (concat T)))"
      unfolding e using True by (simp add: pass_start_def)
    moreover have "same_settings ((hashmap m)\<lparr>resizing_enabled := True\<rparr>) (hashmap (tag_map ?s0))"
      by (simp add: pass_start_def)
    moreover have "max_free_entries (tag_map ?s0) = max_free_entries m" by (simp add: pass_start_def)
    ultimately show ?thesis
      using sc(1) sc(2) d1 dw
      by (intro exI[of _ s1] exI[of _ "pass_start m"] conjI) assumption+
  next
    case False
    let ?s = "re_add ?n s1"
    have dw: "do_weak_oops pof ia f m = Some ?s" using False sc(1) n by (simp add: do_weak_oops_eq)
    have ts: "the_table ?s = ?F" by (simp add: re_add_def)
    have "entry_count (hashmap (tag_map ?s)) = int (length (survivors ia f (concat T)))"
      using sc(6) cnt length_survivors_dead[of ia f "concat T"]
      by (simp add: re_add_def first_buckets_all pass_start_def)
    moreover have "same_settings ((hashmap m)\<lparr>resizing_enabled := True\<rparr>) (hashmap (tag_map ?s))"
      using sc(7) by (simp add: re_add_def pass_start_def)
    moreover have "max_free_entries (tag_map ?s) = max_free_entries m"
      using sc(8) by (simp add: re_add_def pass_start_def)
    moreover have "is_alive_calls ?s = map object (concat T)"
      using sc(4) by (simp add: re_add_def pass_start_def first_buckets_all)
    moreover have "object_free_events ?s = (if pof then dead_tags ia (concat T) else [])"
      using sc(5) by (simp add: re_add_def pass_start_def first_buckets_all)
    moreover have "delayed_add ?s = []" by (simp add: re_add_def)
    moreover have "\<forall>i < ?n. \<forall>x \<in> set (the_table ?s ! i). hash (object x) ?n = i"
      unfolding ts using b by blast
    moreover have "length (the_table ?s) = ?n" unfolding ts using l1 by simp
    moreover have "the_table ?s = foldl (link_at_head ?n) (the_table s1) (delayed_add s1)" by (rule ts)
    moreover have "mset (concat (the_table ?s)) = mset (survivors ia f (concat T))"
      unfolding ts by (rule mF)
    ultimately show ?thesis
      using sc(1) sc(2) d1 dw
      by (intro exI[of _ s1] exI[of _ "re_add (length T) s1"] conjI) assumption+
  qed
qed

lemma do_weak_oops_wf:
  assumes wf: "wf_map m"
    and inj: "inj_on f {ob \<in> object ` set (entries (hashmap m)). ia ob}"
    and run: "do_weak_oops pof ia f m = Some s"
  shows "wf_map (tag_map s)"
proof -
  let ?T = "table (hashmap m)"
  let ?n = "length ?T"
  have w: "wf_hashmap (hashmap m)" using wf by (simp add: wf_map_def)
  obtain s1 s' where p: "do_weak_oops pof ia f m = Some s'"
    "mset (concat (the_table s')) = mset (survivors ia f (concat ?T))"
    "\<forall>i < ?n. \<forall>x \<in> set (the_table s' ! i). hash (object x) ?n = i"
    "length (the_table s') = ?n"
    "entry_count (hashmap (tag_map s')) = int (length (survivors ia f (concat ?T)))"
    "same_settings ((hashmap m)\<lparr>resizing_enabled := True\<rparr>) (hashmap (tag_map s'))"
    using pass_props[OF wf, of pof ia f] by blast
  have s: "s' = s" using p(1) run by simp
  have tg: "\<forall>e \<in> set (survivors ia f (concat ?T)). tag e \<noteq> 0"
    using w by (intro survivors_tags) (simp add: wf_hashmap_def entries_def)
  have d: "distinct (map object (survivors ia f (concat ?T)))"
    using w inj by (intro survivors_distinct) (simp_all add: wf_hashmap_def entries_def)
  note q = mset_eq_props(1)[OF p(2)] mset_eq_props(2)[OF p(2)] mset_eq_props(3)[OF p(2), of object]
  show ?thesis
    unfolding wf_map_def wf_hashmap_def entries_def
    using w p(3-6) tg d q unfolding s
    by (simp add: wf_hashmap_def same_settings_def the_table_def)
qed

lemma scan_entry_down:
  assumes "ia (object e)" "hash (f (object e)) n < pos"
  shows "scan_entry pof ia f n pos prev e next s0 =
           Some (prev, put_table (link_at_head n ((the_table s0)[pos := prev @ next]) (relocated f e))
                         (s0\<lparr>is_alive_calls := is_alive_calls s0 @ [object e]\<rparr>))"
  using assms by (simp add: scan_entry_def Let_def link_at_head_def relocated_def)

lemma scan_entry_up:
  assumes "ia (object e)" "pos < hash (f (object e)) n"
  shows "scan_entry pof ia f n pos prev e next s0 =
           Some (prev, (put_table ((the_table s0)[pos := prev @ next])
                          (s0\<lparr>is_alive_calls := is_alive_calls s0 @ [object e]\<rparr>))
                         \<lparr>delayed_add := relocated f e # delayed_add s0\<rparr>)"
  using assms by (simp add: scan_entry_def Let_def relocated_def)

lemma write_slot_keeps:
  "w_entry (base (write_slot w x)) = w_entry (base w)"
  "w_o (base (write_slot w x)) = w_o (base w)"
  "is_reference_to_self (write_slot w x) = is_reference_to_self w"
  "referrer_entry (write_slot w x) = referrer_entry w"
  "referrer_o (write_slot w x) = referrer_o w"
  by (cases x; cases "fst x"; simp)+

lemma writes_keep:
  "w_entry (base (foldl write_slot w ws)) = w_entry (base w) \<and>
   w_o (base (foldl write_slot w ws)) = w_o (base w) \<and>
   is_reference_to_self (foldl write_slot w ws) = is_reference_to_self w \<and>
   referrer_entry (foldl write_slot w ws) = referrer_entry w \<and>
   referrer_o (foldl write_slot w ws) = referrer_o w"
  by (induction ws arbitrary: w) (simp_all add: write_slot_keeps)

lemma two_oop_scope_wf:
  assumes wf: "wf_map m"
    and keys: "referrer \<noteq> ob \<longrightarrow>
               klassOop_if_java_lang_Class om referrer \<noteq> klassOop_if_java_lang_Class om ob"
  shows "wf_map (two_oop_callback_scope om oop_size okr ok referrer ob writes m)"
proof -
  let ?new = "TwoOopCallbackWrapper_new om oop_size m referrer ob"
  let ?w = "foldl write_slot ?new writes"
  let ?key = "klassOop_if_java_lang_Class om ob"
  let ?rkey = "klassOop_if_java_lang_Class om referrer"
  note k = writes_keep[of ?new writes]
  have be: "w_entry (base ?w) = hashmap_find (hashmap m) ?key" and bo: "w_o (base ?w) = ?key"
    using k by (simp_all add: TwoOopCallbackWrapper_new_def CallbackWrapper_new_def Let_def)
  show ?thesis
  proof (cases "referrer = ob")
    case True
    then have "is_reference_to_self ?w" using k by (simp add: TwoOopCallbackWrapper_new_def Let_def)
    then have "two_oop_callback_scope om oop_size okr ok referrer ob writes m
               = post_callback_tag_update ok ?key (hashmap_find (hashmap m) ?key) (w_obj_tag (base ?w)) m"
      using be bo by (simp add: two_oop_callback_scope_def TwoOopCallbackWrapper_destroy_def
                                CallbackWrapper_destroy_def)
    then show ?thesis using commit_props(1)[OF wf refl] by simp
  next
    case False
    then have ne: "?rkey \<noteq> ?key" using keys by simp
    have ns: "\<not> is_reference_to_self ?w" and re: "referrer_entry ?w = hashmap_find (hashmap m) ?rkey"
      and ro: "referrer_o ?w = ?rkey"
      using k False by (simp_all add: TwoOopCallbackWrapper_new_def Let_def)
    let ?m1 = "post_callback_tag_update okr ?rkey (hashmap_find (hashmap m) ?rkey) (referrer_obj_tag ?w) m"
    have w1: "wf_map ?m1" by (rule commit_props(1)[OF wf refl])
    have f1: "hashmap_find (hashmap ?m1) ?key = hashmap_find (hashmap m) ?key"
      using commit_props(3)[OF wf refl, of ?key ?rkey] ne by simp
    have "two_oop_callback_scope om oop_size okr ok referrer ob writes m
          = post_callback_tag_update ok ?key (hashmap_find (hashmap ?m1) ?key) (w_obj_tag (base ?w)) ?m1"
      using ns re ro be bo f1
      by (simp add: two_oop_callback_scope_def TwoOopCallbackWrapper_destroy_def
                    CallbackWrapper_destroy_def Let_def)
    then show ?thesis using commit_props(1)[OF w1 refl] by simp
  qed
qed

lemma reachable_wf: "reachable om oop_size m \<Longrightarrow> wf_map m"
proof (induction rule: reachable.induct)
  case (new tr ok lf mx m)
  then show ?case by (rule new_props(1))
next
  case (set_tag m ok ob t)
  then show ?case by (simp add: set_tag_props(1))
next
  case (callback m ok ob t)
  then show ?case unfolding callback_scope_eq by (simp add: commit_props(1))
next
  case (two_oop_callback m referrer ob okr ok writes)
  then show ?case by (simp add: two_oop_scope_wf)
next
  case (weak_oops m f is_alive pof s)
  then show ?case using do_weak_oops_wf by blast
qed

lemma set_tag_in_place:
  assumes wf: "wf_map m" and t: "t \<noteq> 0"
    and tagged: "tag_for m (klassOop_if_java_lang_Class om ob) \<noteq> 0"
  shows "map (map object) (table (hashmap (set_tag om ok ob t m))) = map (map object) (table (hashmap m))"
    and "entry_count (hashmap (set_tag om ok ob t m)) = entry_count (hashmap m)"
    and "size_hm (hashmap (set_tag om ok ob t m)) = size_hm (hashmap m)"
proof -
  let ?key = "klassOop_if_java_lang_Class om ob"
  have w: "wf_hashmap (hashmap m)" using wf by (simp add: wf_map_def)
  obtain e where f: "hashmap_find (hashmap m) ?key = Some e"
    using tagged tag_for_nonzero_iff[OF w, of ?key] by auto
  have eq: "hashmap (set_tag om ok ob t m) = entry_set_tag ?key t (hashmap m)"
    using f t by (simp add: set_tag_def Let_def)
  have len: "hash ?key (size_hm (hashmap m)) < length (table (hashmap m))"
    using w hash_less[of "size_hm (hashmap m)" ?key] by (simp add: wf_hashmap_def)
  show "map (map object) (table (hashmap (set_tag om ok ob t m))) = map (map object) (table (hashmap m))"
    unfolding eq by (rule entry_set_tag_shape(1)[OF len])
  show "entry_count (hashmap (set_tag om ok ob t m)) = entry_count (hashmap m)"
    unfolding eq by (rule entry_set_tag_shape(2)[OF len])
  show "size_hm (hashmap (set_tag om ok ob t m)) = size_hm (hashmap m)"
    unfolding eq by (rule entry_set_tag_shape(3)[OF len])
qed

lemma unat_full_object: "k < 2 ^ 29 \<Longrightarrow> unat (full_object k) = 8 * k"
  unfolding full_object_def unat_of_nat by simp

lemma hash_full_object:
  assumes "k < 2 ^ 29"
  shows "hash (full_object k) n = k mod n"
proof -
  have "unat (drop_bit 3 (ucast (full_object k) :: 32 word))
        = drop_bit 3 (take_bit 32 (unat (full_object k)))"
    by (simp add: unat_drop_bit_eq unsigned_ucast_eq)
  also have "... = drop_bit 3 (take_bit 32 (8 * k))" using assms by (simp add: unat_full_object)
  also have "take_bit 32 (8 * k) = 8 * k" using assms by (simp add: take_bit_nat_eq_self_iff)
  also have "drop_bit 3 (8 * k) = k" by (simp add: drop_bit_eq_div)
  finally show ?thesis by (simp add: hash_def)
qed

lemma full_object_inj:
  assumes "a < 2 ^ 29" "b < 2 ^ 29" "full_object a = full_object b"
  shows "a = b"
proof -
  have "unat (full_object a) = unat (full_object b)" using assms(3) by simp
  then show ?thesis using assms(1,2) by (simp add: unat_full_object)
qed

lemma distinct_concat_map_upt:
  assumes "\<And>i. i < n \<Longrightarrow> distinct (g i)"
    and "\<And>i j. i < n \<Longrightarrow> j < n \<Longrightarrow> i \<noteq> j \<Longrightarrow> set (g i) \<inter> set (g j) = {}"
  shows "distinct (concat (map g [0..<n]))"
  using assms
proof (induction n)
  case 0
  then show ?case by simp
next
  case (Suc n)
  have "distinct (concat (map g [0..<n]))" using Suc by simp
  moreover have "distinct (g n)" using Suc.prems(1) by simp
  moreover have "set (concat (map g [0..<n])) \<inter> set (g n) = {}"
  proof -
    have "set (g i) \<inter> set (g n) = {}" if "i < n" for i
      using Suc.prems(2)[of i n] that by simp
    then show ?thesis by fastforce
  qed
  ultimately show ?case by simp
qed

lemma sizes_bound: "idx < 11 \<Longrightarrow> 0 < sizes ! idx \<and> sizes ! idx \<le> 78643219"
proof -
  assume "idx < 11"
  then have "idx = 0 \<or> idx = 1 \<or> idx = 2 \<or> idx = 3 \<or> idx = 4 \<or> idx = 5 \<or> idx = 6 \<or> idx = 7
             \<or> idx = 8 \<or> idx = 9 \<or> idx = 10"
    by arith
  then show ?thesis by (auto simp: sizes_def)
qed

lemma default_load_factor_small: "n < 2 ^ 24 \<Longrightarrow> default_load_factor n = 4 * int n"
  by (simp add: default_load_factor_def int_to_float_def)

lemma default_load_factor_4801 [simp]: "default_load_factor 4801 = 19204"
  by (simp add: default_load_factor_small)

lemma default_load_factor_largest [simp]: "default_load_factor 78643219 = 314572864"
  by (simp add: default_load_factor_def int_to_float_def round_to_def Let_def)

lemma fills_4801: "fills 4801"
  by (simp add: fills_def)

lemma fills_largest: "fills 78643219"
  by (simp add: fills_def)

lemma full_chain_hash:
  assumes "0 < sz" "sz \<le> 78643219" "i < sz" "e \<in> set (full_chain sz short i)"
  shows "hash (object e) sz = i"
proof -
  have b: "i < 2 ^ 29" "i + sz < 2 ^ 29" "i + 2 * sz < 2 ^ 29" "i + 3 * sz < 2 ^ 29"
    using assms(2,3) by simp_all
  have m: "i mod sz = i" "(i + sz) mod sz = i" "(i + 2 * sz) mod sz = i" "(i + 3 * sz) mod sz = i"
    using assms(3) by simp_all
  show ?thesis
    using assms(4) b m by (auto simp: full_chain_def full_entry_def hash_full_object split: if_splits)
qed

lemma full_chain_distinct:
  assumes "0 < sz" "sz \<le> 78643219" "i < sz"
  shows "distinct (map object (full_chain sz short i))"
proof -
  have b: "i < 2 ^ 29" "i + sz < 2 ^ 29" "i + 2 * sz < 2 ^ 29" "i + 3 * sz < 2 ^ 29"
    using assms(2,3) by simp_all
  have "full_object a \<noteq> full_object c" if "a < 2 ^ 29" "c < 2 ^ 29" "a \<noteq> c" for a c
    using that full_object_inj by blast
  then show ?thesis using b assms(1) by (simp add: full_chain_def full_entry_def)
qed

lemma full_chain_lengths:
  "sum_list (map (\<lambda>i. length (full_chain sz short i)) [0..<n]) = 4 * n - min n short"
  by (induction n) (auto simp: full_chain_def min_def)

lemma full_count:
  fixes n :: nat and d :: int
  assumes "3 * int n \<le> d" "d \<le> 4 * int n"
  shows "int (4 * n - min n (nat (4 * int n - d))) = d"
proof -
  have "nat (4 * int n - d) \<le> n" using assms by linarith
  then have "min n (nat (4 * int n - d)) = nat (4 * int n - d)" by simp
  moreover have "nat (4 * int n - d) \<le> 4 * n" using assms by linarith
  ultimately show ?thesis using assms by (simp add: of_nat_diff)
qed

lemma full_hashmap_fields:
  assumes "idx < 11"
  shows "size_hm (full_hashmap idx) = nat (sizes ! idx)"
    and "size_index (full_hashmap idx) = idx"
    and "entry_count (full_hashmap idx) = default_load_factor (nat (sizes ! idx))"
    and "resize_threshold (full_hashmap idx) = default_load_factor (nat (sizes ! idx))"
    and "resizing_enabled (full_hashmap idx)"
    and "table (full_hashmap idx)
         = map (full_chain (nat (sizes ! idx)) (short_buckets (nat (sizes ! idx)))) [0..<nat (sizes ! idx)]"
  using sizes_bound[OF assms] by (simp_all add: full_hashmap_def Let_def)

lemma wf_full_hashmap:
  assumes idx: "idx < 11" and fills: "fills (nat (sizes ! idx))"
  shows "wf_hashmap (full_hashmap idx)"
proof -
  let ?sz = "nat (sizes ! idx)"
  let ?short = "short_buckets ?sz"
  let ?hm = "full_hashmap idx"
  note fl = full_hashmap_fields[OF idx]
  have sz: "0 < ?sz" "?sz \<le> 78643219" using sizes_bound[OF idx] by linarith+
  have en: "entries ?hm = concat (map (full_chain ?sz ?short) [0..<?sz])"
    by (simp add: entries_def fl(6))
  have nth: "table ?hm ! i = full_chain ?sz ?short i" if "i < ?sz" for i
    using that by (simp add: fl(6))
  have bucket: "\<forall>i < size_hm ?hm. \<forall>e \<in> set (table ?hm ! i). hash (object e) (size_hm ?hm) = i"
    unfolding fl(1) using nth full_chain_hash[OF sz] by simp
  have tags: "\<forall>e \<in> set (entries ?hm). tag e \<noteq> 0"
    by (auto simp: en full_chain_def full_entry_def split: if_splits)
  have "distinct (concat (map (\<lambda>i. map object (full_chain ?sz ?short i)) [0..<?sz]))"
  proof (rule distinct_concat_map_upt)
    fix i assume "i < ?sz"
    then show "distinct (map object (full_chain ?sz ?short i))" by (rule full_chain_distinct[OF sz])
  next
    fix i j assume ij: "i < ?sz" "j < ?sz" "i \<noteq> j"
    show "set (map object (full_chain ?sz ?short i)) \<inter> set (map object (full_chain ?sz ?short j)) = {}"
    proof (rule ccontr)
      assume "set (map object (full_chain ?sz ?short i)) \<inter> set (map object (full_chain ?sz ?short j)) \<noteq> {}"
      then obtain a b where ab: "a \<in> set (full_chain ?sz ?short i)" "b \<in> set (full_chain ?sz ?short j)"
        "object a = object b"
        by auto
      then have "i = j"
        using full_chain_hash[OF sz ij(1) ab(1)] full_chain_hash[OF sz ij(2) ab(2)] by simp
      then show False using ij(3) by simp
    qed
  qed
  then have dist: "distinct (map object (entries ?hm))"
    by (simp add: en map_concat comp_def)
  have "length (concat (map (full_chain ?sz ?short) [0..<?sz])) = 4 * ?sz - min ?sz ?short"
    by (simp add: length_concat comp_def full_chain_lengths)
  moreover have "int (4 * ?sz - min ?sz ?short) = default_load_factor ?sz"
    unfolding short_buckets_def using fills by (intro full_count) (simp_all add: fills_def)
  ultimately have "int (length (entries ?hm)) = default_load_factor ?sz"
    unfolding en by simp
  then have cnt: "entry_count ?hm = int (length (entries ?hm))"
    by (simp add: fl(3))
  have basics: "0 < size_hm ?hm" "length (table ?hm) = size_hm ?hm"
    "size_index ?hm < 11" "int (size_hm ?hm) = sizes ! size_index ?hm"
    using sz idx by (simp_all add: fl)
  show ?thesis unfolding wf_hashmap_def using basics bucket tags dist cnt by blast
qed

lemma full_hashmap_fresh:
  assumes idx: "idx < 11"
  shows "hashmap_find (full_hashmap idx) (object (full_entry (4 * nat (sizes ! idx)))) = None"
proof -
  let ?sz = "nat (sizes ! idx)"
  note fl = full_hashmap_fields[OF idx]
  have sz: "0 < ?sz" "?sz \<le> 78643219" using sizes_bound[OF idx] by linarith+
  have b: "4 * ?sz < 2 ^ 29" "(0::nat) < 2 ^ 29" "?sz < 2 ^ 29" "2 * ?sz < 2 ^ 29" "3 * ?sz < 2 ^ 29"
    using sz(2) by simp_all
  have h: "hash (full_object (4 * ?sz)) ?sz = 0"
    using hash_full_object[OF b(1), of ?sz] by simp
  have ne: "full_object a \<noteq> full_object (4 * ?sz)" if "a < 2 ^ 29" "a \<noteq> 4 * ?sz" for a
    using that full_object_inj[OF that(1) b(1)] by blast
  show ?thesis
    using sz(1) b ne
    by (simp add: hashmap_find_def fl(1) fl(6) full_entry_def h full_chain_def)
qed

lemma disabled_table_keeps_size:
  assumes "\<not> resizing_enabled hm"
  shows "size_hm (hashmap_add ok (object e) e hm) = size_hm hm
       \<and> size_index (hashmap_add ok (object e) e hm) = size_index hm
       \<and> table (hashmap_add ok (object e) e hm) = linked e hm
       \<and> \<not> resizing_enabled (hashmap_add ok (object e) e hm)"
  using assms
  by (simp add: hashmap_add_def Let_def compute_next_trace_threshold_def linked_def)


lemma sizes_last: "i < 11 \<Longrightarrow> (sizes ! (i + 1) < 0) = (i = 10)"
proof -
  assume "i < 11"
  then have "i = 0 \<or> i = 1 \<or> i = 2 \<or> i = 3 \<or> i = 4 \<or> i = 5 \<or> i = 6 \<or> i = 7 \<or> i = 8 \<or> i = 9 \<or> i = 10"
    by arith
  then show ?thesis by (auto simp: sizes_def)
qed

lemma sizes_grow: "i < 10 \<Longrightarrow> sizes ! i < sizes ! (i + 1)"
proof -
  assume "i < 10"
  then have "i = 0 \<or> i = 1 \<or> i = 2 \<or> i = 3 \<or> i = 4 \<or> i = 5 \<or> i = 6 \<or> i = 7 \<or> i = 8 \<or> i = 9"
    by arith
  then show ?thesis by (auto simp: sizes_def)
qed

lemma add_over_threshold:
  assumes en: "resizing_enabled hm" and over: "entry_count hm + 1 > resize_threshold hm"
  shows "hashmap_add ok (object e) e hm =
           hashmap_resize ok
             ((if trace_threshold hm > 0 \<and> entry_count hm + 1 \<ge> trace_threshold hm
               then compute_next_trace_threshold else id)
                (hm\<lparr>table := linked e hm, entry_count := entry_count hm + 1\<rparr>))"
  using assms by (simp add: hashmap_add_def Let_def linked_def compute_next_trace_threshold_def)

lemma add_never_enables:
  "resizing_enabled (hashmap_add ok k e hm) \<Longrightarrow> resizing_enabled hm"
  by (auto simp: hashmap_add_def hashmap_resize_def Let_def compute_next_trace_threshold_def
           split: if_splits)

lemma remove_keeps_enabled:
  "resizing_enabled (snd (hashmap_remove k hm)) = resizing_enabled hm"
  by (simp add: hashmap_remove_def Let_def split: option.splits)

lemma entry_set_tag_keeps_enabled:
  "resizing_enabled (entry_set_tag k t hm) = resizing_enabled hm"
  by (simp add: entry_set_tag_def Let_def)

lemma create_entry_hashmap: "hashmap (snd (create_entry k t m)) = hashmap m"
  by (simp add: create_entry_def split: list.splits)

lemma commit_never_enables:
  "resizing_enabled (hashmap (post_callback_tag_update ok key entry t m)) \<Longrightarrow> resizing_enabled (hashmap m)"
  by (auto simp: post_callback_tag_update_def Let_def split_beta create_entry_hashmap
                 remove_keeps_enabled entry_set_tag_keeps_enabled
           split: option.splits if_splits dest: add_never_enables)

lemma set_tag_never_enables:
  "resizing_enabled (hashmap (set_tag om ok ob t m)) \<Longrightarrow> resizing_enabled (hashmap m)"
  by (auto simp: set_tag_def Let_def split_beta create_entry_hashmap
                 remove_keeps_enabled entry_set_tag_keeps_enabled
           split: option.splits if_splits dest: add_never_enables)

lemma callback_scope_never_enables:
  "resizing_enabled (hashmap (callback_scope om sz ok ob t m)) \<Longrightarrow> resizing_enabled (hashmap m)"
  unfolding callback_scope_eq by (rule commit_never_enables)

lemma two_oop_scope_never_enables:
  "resizing_enabled (hashmap (two_oop_callback_scope om sz okr ok referrer ob writes m))
   \<Longrightarrow> resizing_enabled (hashmap m)"
  by (auto simp: two_oop_callback_scope_def TwoOopCallbackWrapper_destroy_def
                 CallbackWrapper_destroy_def Let_def
           split: if_splits dest: commit_never_enables)

lemma do_weak_oops_enables:
  assumes "wf_map m"
  shows "\<exists>s. do_weak_oops pof ia f m = Some s \<and> resizing_enabled (hashmap (tag_map s))"
proof -
  obtain s1 s where "do_weak_oops pof ia f m = Some s"
    "same_settings ((hashmap m)\<lparr>resizing_enabled := True\<rparr>) (hashmap (tag_map s))"
    using pass_props[OF assms, of pof ia f] by blast
  then show ?thesis by (auto simp: same_settings_def)
qed

lemma sizes_at: "sizes ! 0 = 4801" "sizes ! 1 = 76831" "sizes ! Suc 0 = 76831" "sizes ! 10 = 78643219"
  by (simp_all add: sizes_def)

lemma match_tags_results:
  "object_results (match_tags om e ts c)
     = object_results c @ replicate (count_list ts (tag e)) (mirror_of om (object e)) \<and>
   tag_results (match_tags om e ts c) = tag_results c @ replicate (count_list ts (tag e)) (tag e) \<and>
   requested_tags (match_tags om e ts c) = requested_tags c"
  by (induction ts arbitrary: c) (simp_all add: replicate_app_Cons_same)

lemma entry_iterate_results_aux:
  "object_results (foldl (do_entry om) c es)
     = object_results c
       @ concat (map (\<lambda>e. replicate (count_list (requested_tags c) (tag e)) (mirror_of om (object e))) es) \<and>
   tag_results (foldl (do_entry om) c es)
     = tag_results c @ concat (map (\<lambda>e. replicate (count_list (requested_tags c) (tag e)) (tag e)) es) \<and>
   requested_tags (foldl (do_entry om) c es) = requested_tags c"
proof (induction es arbitrary: c)
  case Nil
  then show ?case by simp
next
  case (Cons e es)
  show ?case
    using Cons[of "do_entry om c e"] match_tags_results[of om e "requested_tags c" c]
    by (simp add: do_entry_def)
qed


lemma entry_iterate_results:
  "object_results (entry_iterate om hm (TagObjectCollector_new tags))
     = concat (map (\<lambda>e. replicate (count_list tags (tag e)) (mirror_of om (object e)))
                   (concat (buckets hm)))"
  "tag_results (entry_iterate om hm (TagObjectCollector_new tags))
     = concat (map (\<lambda>e. replicate (count_list tags (tag e)) (tag e)) (concat (buckets hm)))"
  using entry_iterate_results_aux[of om "TagObjectCollector_new tags" "concat (buckets hm)"]
  by (simp_all add: entry_iterate_def TagObjectCollector_new_def)

lemma count_list_replicate: "count_list (replicate k t) x = (if x = t then k else 0)"
  by (induction k) auto

lemma length_concat_replicate:
  "length (concat (map (\<lambda>e. replicate (g e) (h e)) es)) = sum_list (map g es)"
  by (induction es) simp_all

lemma buckets_one_tag_map: "concat (buckets (hashmap one_tag_map)) = [\<lparr>object = 8, tag = 5\<rparr>]"
proof -
  have "buckets (hashmap one_tag_map) = table (hashmap one_tag_map)"
    by (rule buckets_eq) (simp add: one_tag_map_def)
  then show ?thesis using entries_one_tag_map by (simp add: entries_def)
qed

lemma result_success:
  "result (Some a1) (Some a2) c count_ptr (Some orp) (Some trp) mem =
     (JVMTI_ERROR_NONE,
      mem\<lparr> blocks := (blocks mem)(a1 \<mapsto> length (object_results c) * 8,
                                    a2 \<mapsto> length (object_results c) * 8),
           pointers := (pointers mem)(orp \<mapsto> a1, trp \<mapsto> a2),
           object_buffers := (object_buffers mem)(a1 \<mapsto> object_results c),
           tag_buffers := (tag_buffers mem)(a2 \<mapsto> tag_results c),
           counts := (counts mem)(count_ptr \<mapsto> int (length (object_results c))) \<rparr>)"
  by (simp add: result_def Allocate_def deref_def Let_def)

lemma result_second_allocation_fails:
  assumes "a \<noteq> p" "p \<notin> dom (blocks mem)"
  shows "result (Some a) None c count_ptr (Some p) (Some q) mem =
     (JVMTI_ERROR_OUT_OF_MEMORY,
      mem\<lparr> blocks := (blocks mem)(a \<mapsto> length (object_results c) * 8),
           pointers := (pointers mem)(p \<mapsto> a),
           object_buffers := (object_buffers mem)(a \<mapsto> object_results c),
           bad_frees := bad_frees mem @ [p] \<rparr>)"
  using assms by (simp add: result_def Allocate_def Deallocate_def deref_def Let_def)

subsection \<open>The callbacks of the walk\<close>

lemma check_for_visit_fields:
  "walk_tags (check_for_visit obj w) = walk_tags w"
  "headers (check_for_visit obj w) = headers w"
  "saved_oop_stack (check_for_visit obj w) = saved_oop_stack w"
  "saved_mark_stack (check_for_visit obj w) = saved_mark_stack w"
  "preserved_marks (check_for_visit obj w) = preserved_marks w"
  "class_list (check_for_visit obj w) = class_list w"
  "jvmti_cached_class_field_map (check_for_visit obj w) = jvmti_cached_class_field_map w"
  "last_referrer (check_for_visit obj w) = last_referrer w"
  "last_referrer_tag (check_for_visit obj w) = last_referrer_tag w"
  "user_data (check_for_visit obj w) = user_data w"
  "object_reference_reports (check_for_visit obj w) = object_reference_reports w"
  "heap_reference_reports (check_for_visit obj w) = heap_reference_reports w"
  "visit_stack (check_for_visit obj w) = (if visited w obj then visit_stack w else obj # visit_stack w)"
  by (simp_all add: check_for_visit_def)

lemma end_scope_fields:
  "headers (end_scope ok wr w) = headers w"
  "saved_oop_stack (end_scope ok wr w) = saved_oop_stack w"
  "saved_mark_stack (end_scope ok wr w) = saved_mark_stack w"
  "preserved_marks (end_scope ok wr w) = preserved_marks w"
  "class_list (end_scope ok wr w) = class_list w"
  "jvmti_cached_class_field_map (end_scope ok wr w) = jvmti_cached_class_field_map w"
  "last_referrer (end_scope ok wr w) = last_referrer w"
  "last_referrer_tag (end_scope ok wr w) = last_referrer_tag w"
  "user_data (end_scope ok wr w) = user_data w"
  "object_reference_reports (end_scope ok wr w) = object_reference_reports w"
  "heap_reference_reports (end_scope ok wr w) = heap_reference_reports w"
  "visit_stack (end_scope ok wr w) = visit_stack w"
  by (simp_all add: end_scope_def)

lemma end_two_oop_scope_fields:
  "headers (end_two_oop_scope ok wr2 w) = headers w"
  "saved_oop_stack (end_two_oop_scope ok wr2 w) = saved_oop_stack w"
  "saved_mark_stack (end_two_oop_scope ok wr2 w) = saved_mark_stack w"
  "preserved_marks (end_two_oop_scope ok wr2 w) = preserved_marks w"
  "class_list (end_two_oop_scope ok wr2 w) = class_list w"
  "jvmti_cached_class_field_map (end_two_oop_scope ok wr2 w) = jvmti_cached_class_field_map w"
  "last_referrer (end_two_oop_scope ok wr2 w) = last_referrer w"
  "last_referrer_tag (end_two_oop_scope ok wr2 w) = last_referrer_tag w"
  "user_data (end_two_oop_scope ok wr2 w) = user_data w"
  "object_reference_reports (end_two_oop_scope ok wr2 w) = object_reference_reports w"
  "heap_reference_reports (end_two_oop_scope ok wr2 w) = heap_reference_reports w"
  "visit_stack (end_two_oop_scope ok wr2 w) = visit_stack w"
  by (simp_all add: end_two_oop_scope_def)

lemma visited_user_data [simp]: "visited (w\<lparr>user_data := u\<rparr>) ob = visited w ob"
  by (simp add: visited_def)

lemma invoke_basic_cache:
  fixes w :: "'u heap_walk"
  shows "last_referrer (snd (invoke_basic_object_reference_callback om oop_size malloc_ok cb kind
            referrer referree index w)) = referrer"
    and "last_referrer_tag (snd (invoke_basic_object_reference_callback om oop_size malloc_ok cb kind
            referrer referree index w))
         = (if referrer = referree
            then fst (snd (cb (last (object_reference_reports (snd (invoke_basic_object_reference_callback
                   om oop_size malloc_ok cb kind referrer referree index w)))) (user_data w)))
            else or_referrer_tag (last (object_reference_reports (snd
                   (invoke_basic_object_reference_callback om oop_size malloc_ok cb kind referrer
                      referree index w)))))"
    and "or_referrer_tag (last (object_reference_reports (snd
            (invoke_basic_object_reference_callback om oop_size malloc_ok cb kind referrer referree index w))))
         = (if referrer = last_referrer w then last_referrer_tag w
            else tag_for (walk_tags w) (klassOop_if_java_lang_Class om referrer))"
  by (simp_all add: invoke_basic_object_reference_callback_def Let_def case_prod_beta
      end_scope_fields check_for_visit_fields)

lemma suppressed_object_reference:
  assumes "rejected J om oop_size context w obj"
  shows "suppressed w obj
           (invoke_advanced_object_reference_callback J om oop_size malloc_ok context ref_kind referrer obj index w)"
proof -
  have b: "base (TwoOopCallbackWrapper_new om oop_size (walk_tags w) referrer obj)
           = CallbackWrapper_new om oop_size (walk_tags w) obj"
    by (simp add: TwoOopCallbackWrapper_new_def Let_def)
  show ?thesis
    using assms
    by (auto simp: invoke_advanced_object_reference_callback_def rejected_def suppressed_def Let_def b
        end_two_oop_scope_fields check_for_visit_fields split: option.splits)
qed

lemma suppressed_heap_root:
  assumes "rejected J om oop_size context w obj"
  shows "suppressed w obj
           (invoke_advanced_heap_root_callback J om oop_size malloc_ok context ref_kind obj w)"
  using assms
  by (auto simp: invoke_advanced_heap_root_callback_def rejected_def suppressed_def Let_def
      end_scope_fields check_for_visit_fields split: option.splits)

lemma suppressed_stack_ref:
  assumes "rejected J om oop_size context w obj"
  shows "suppressed w obj
           (invoke_advanced_stack_ref_callback J om oop_size malloc_ok context ref_kind thread_tag tid
              depth jmethod bci slot obj w)"
  using assms
  by (auto simp: invoke_advanced_stack_ref_callback_def rejected_def suppressed_def Let_def
      end_scope_fields check_for_visit_fields split: option.splits)

lemma suppressed_reports:
  assumes adv: "is_advanced_heap_walk op"
    and rej: "rejected (jvmti op) (objects op) (object_size op) (advanced_context op) w obj"
  shows "suppressed w obj (report_object_reference op basic_kind kind referrer obj index w)"
    and "suppressed w obj (report_simple_root op kind obj w)"
    and "suppressed w obj (report_stack_ref_root op thread_tag tid depth jmethod bci slot obj w)"
    and "suppressed w obj (report_jni_local_root op thread_tag tid depth jmethod obj w)"
  using adv
  by (simp_all add: report_object_reference_def report_simple_root_def report_stack_ref_root_def
      report_jni_local_root_def suppressed_object_reference[OF rej] suppressed_heap_root[OF rej]
      suppressed_stack_ref[OF rej])

subsection \<open>The marks of a walk\<close>

lemma marks_kept_refl [simp]: "marks_kept w w"
  by (simp add: marks_kept_def)



lemma keeps_skip [simp]: "keeps skip"
  by (simp add: keeps_def skip_def)

lemma keeps_if: "keeps f \<Longrightarrow> keeps g \<Longrightarrow> keeps (if c then f else g)"
  by simp




lemma keeps_check_for_visit: "marks_kept w (check_for_visit obj w)"
  by (simp add: marks_kept_def check_for_visit_fields)

lemma keeps_end_scope: "marks_kept w (end_scope ok wr w)"
  by (simp add: marks_kept_def end_scope_fields)

lemma keeps_end_two_oop_scope: "marks_kept w (end_two_oop_scope ok wr2 w)"
  by (simp add: marks_kept_def end_two_oop_scope_fields)



lemma keeps_basic_object_reference:
  "keeps (invoke_basic_object_reference_callback om oop_size ok cb kind referrer referree index)"
  by (simp add: keeps_def marks_kept_def invoke_basic_object_reference_callback_def Let_def
      case_prod_beta end_scope_fields check_for_visit_fields)



lemma keeps_advanced_object_reference:
  "keeps (invoke_advanced_object_reference_callback J om oop_size ok context kind referrer obj index)"
  by (simp add: keeps_def marks_kept_def invoke_advanced_object_reference_callback_def Let_def
      case_prod_beta end_two_oop_scope_fields check_for_visit_fields split: option.splits)

lemma keeps_primitive_value:
  "keeps (report_primitive_value J om oop_size ok context cb field obj)"
  by (simp add: keeps_def marks_kept_def report_primitive_value_def Let_def case_prod_beta
      end_scope_fields)




lemma keeps_report_object_reference:
  "keeps (report_object_reference op basic_kind advanced_kind referrer referree index)"
proof -
  have "marks_kept w (snd (report_object_reference op basic_kind advanced_kind referrer referree index w))"
    for w
  proof (cases "is_advanced_heap_walk op")
    case True
    then show ?thesis
      using keeps_advanced_object_reference[of "jvmti op" "objects op" "object_size op" "allocation op"
          "advanced_context op" advanced_kind referrer referree index]
      by (simp add: report_object_reference_def keeps_def)
  next
    case False
    show ?thesis
    proof (cases "object_ref_callback (basic_context op)")
      case None
      then show ?thesis using False by (simp add: report_object_reference_def)
    next
      case (Some cb)
      then show ?thesis
        using False keeps_basic_object_reference[of "objects op" "object_size op" "allocation op" cb
            basic_kind referrer referree index]
        by (simp add: report_object_reference_def keeps_def)
    qed
  qed
  then show ?thesis by (simp add: keeps_def)
qed

lemma keeps_report_with: "keeps (report_with op callback field obj)"
proof (cases callback)
  case None
  then show ?thesis by (simp add: report_with_def keeps_def)
next
  case (Some cb)
  then show ?thesis
    using keeps_primitive_value[of "jvmti op" "objects op" "object_size op" "allocation op"
        "advanced_context op" cb field obj]
    by (simp add: report_with_def keeps_def)
qed

lemma keeps_reports [simp]:
  "keeps (report_class_reference op referrer referree)"
  "keeps (report_class_loader_reference op referrer referree)"
  "keeps (report_signers_reference op referrer referree)"
  "keeps (report_protection_domain_reference op referrer referree)"
  "keeps (report_superclass_reference op referrer referree)"
  "keeps (report_interface_reference op referrer referree)"
  "keeps (report_static_field_reference op referrer referree slot)"
  "keeps (report_array_element_reference op referrer referree slot)"
  "keeps (report_field_reference op referrer referree slot)"
  "keeps (report_constant_pool_reference op referrer referree slot)"
  "keeps (report_primitive_instance_field op obj slot)"
  "keeps (report_primitive_static_field op obj slot)"
  "keeps (report_string_value op obj)"
  "keeps (report_primitive_array_values op obj)"
  by (simp_all add: report_class_reference_def report_class_loader_reference_def
      report_signers_reference_def report_protection_domain_reference_def
      report_superclass_reference_def report_interface_reference_def
      report_static_field_reference_def report_array_element_reference_def
      report_field_reference_def report_constant_pool_reference_def
      report_primitive_instance_field_def report_primitive_static_field_def
      report_string_value_def report_primitive_array_values_def
      keeps_report_object_reference keeps_report_with)













lemma restorable_pop [simp]: "restorable h0 p (w\<lparr>visit_stack := s\<rparr>) = restorable h0 p w"
  by (simp add: restorable_def)

lemma marked_prototype [simp]: "is_marked (set_marked prototype)"
  by (simp add: is_marked_def set_marked_def)





lemma unmarked_pop [simp]: "unmarked (w\<lparr>visit_stack := s\<rparr>) = unmarked w"
  by (simp add: unmarked_def)




lemma prototype_unmarked [simp]: "\<not> is_marked prototype"
  by (simp add: is_marked_def prototype_def)







section \<open>The claims\<close>

text \<open>
  C1. After any finite sequence of \<open>set_tag\<close> calls on a new tag map, \<open>get_tag\<close> of an object
  is the tag of the most recent call made for that object, be it a non-zero tag or 0, and
  it is 0 when no call was made for the object. The objects are Java objects, which the
  store keys apart: \<open>klassOop_if_java_lang_Class\<close> is injective on them.
\<close>

theorem get_tag_most_recent:
  assumes "JvmtiTagMap_new tr ok0 lf mx = Some m0"
    and "inj_on (klassOop_if_java_lang_Class om) (insert ob (fst ` set calls))"
  shows "get_tag om (set_tags om calls m0) ob =
           (case most_recent ob calls of Some t \<Rightarrow> t | None \<Rightarrow> 0)"
proof -
  note n = new_props[OF assms(1)]
  have "tag_for (set_tags om calls m0) (klassOop_if_java_lang_Class om ob) =
          (case most_recent (klassOop_if_java_lang_Class om ob)
                  (map (apfst (klassOop_if_java_lang_Class om)) calls) of
             Some t \<Rightarrow> t | None \<Rightarrow> tag_for m0 (klassOop_if_java_lang_Class om ob))"
    using set_tags_keyed[OF n(1)] by blast
  then show ?thesis
    unfolding get_tag_def most_recent_inj[OF assms(2)] n(3) .
qed

lemma new_default: "JvmtiTagMap_new False True default_load_factor 4096 = Some default_tag_map"
  by (simp add: JvmtiTagMap_new_def hashmap_init_def Let_def sizes_0 default_tag_map_def)

lemma plain_key [simp]: "klassOop_if_java_lang_Class plain_objects ob = ob"
  by (simp add: klassOop_if_java_lang_Class_def plain_objects_def)

theorem get_tag_most_recent_witness:
  "get_tag plain_objects
     (set_tags plain_objects [(8, 5, True), (16, 7, True), (8, 0, False), (8, 9, True), (16, 0, True)]
        default_tag_map) 8 = 9
   \<and> get_tag plain_objects
     (set_tags plain_objects [(8, 5, True), (16, 7, True), (8, 0, False), (8, 9, True), (16, 0, True)]
        default_tag_map) 16 = 0"
proof -
  have i: "inj_on (klassOop_if_java_lang_Class plain_objects) (insert ob (fst ` set calls))" for ob calls
    by (simp add: inj_on_def)
  show ?thesis
    using get_tag_most_recent[where ob = 8 and om = plain_objects
            and calls = "[(8, 5, True), (16, 7, True), (8, 0, False), (8, 9, True), (16, 0, True)]",
            OF new_default i]
          get_tag_most_recent[where ob = 16 and om = plain_objects
            and calls = "[(8, 5, True), (16, 7, True), (8, 0, False), (8, 9, True), (16, 0, True)]",
            OF new_default i]
    by simp
qed

text \<open>
  C4. When the scope of a \<open>CallbackWrapper\<close> ends, the tag slot is committed. The slot
  holds at first the object's tag (0 when it has none). A slot that went from 0 to
  non-zero creates an entry; one that went from non-zero to 0 removes the entry from the
  table and hands it to \<open>destroy_entry\<close>, which puts it on the free list while the list
  holds fewer than \<open>max_free_entries\<close> entries and drops it otherwise; one that went from
  a non-zero value to another updates the entry where it stands; an unchanged slot leaves
  the tag map as it was.
\<close>

theorem callback_scope_commit:
  fixes om :: object_model and oop_size :: "oop \<Rightarrow> 32 word" and ok :: bool
    and ob :: oop and t :: jlong and m :: JvmtiTagMap
  assumes wf: "wf_map m"
  defines "key \<equiv> klassOop_if_java_lang_Class om ob"
  defines "m' \<equiv> callback_scope om oop_size ok ob t m"
  shows "w_obj_tag (CallbackWrapper_new om oop_size m ob) = tag_for m key \<and>
         (tag_for m key = 0 \<and> t \<noteq> 0 \<longrightarrow>
           hashmap_find (hashmap m') key = Some \<lparr>object = key, tag = t\<rparr> \<and>
           mset (entries (hashmap m')) = add_mset \<lparr>object = key, tag = t\<rparr> (mset (entries (hashmap m)))) \<and>
         (tag_for m key \<noteq> 0 \<and> t = 0 \<longrightarrow>
           (\<exists>e. hashmap_find (hashmap m) key = Some e \<and>
                hashmap_find (hashmap m') key = None \<and>
                mset (entries (hashmap m)) = add_mset e (mset (entries (hashmap m'))) \<and>
                (if free_entries_count m < max_free_entries m
                 then free_entries m' = e # free_entries m \<and>
                      free_entries_count m' = free_entries_count m + 1
                 else free_entries m' = free_entries m \<and>
                      free_entries_count m' = free_entries_count m))) \<and>
         (tag_for m key \<noteq> 0 \<and> t \<noteq> 0 \<and> t \<noteq> tag_for m key \<longrightarrow>
           map (map object) (table (hashmap m')) = map (map object) (table (hashmap m)) \<and>
           entry_count (hashmap m') = entry_count (hashmap m) \<and>
           tag_for m' key = t \<and>
           (\<forall>k. k \<noteq> key \<longrightarrow> hashmap_find (hashmap m') k = hashmap_find (hashmap m) k) \<and>
           free_entries m' = free_entries m \<and> free_entries_count m' = free_entries_count m) \<and>
         (t = tag_for m key \<longrightarrow> m' = m)"
proof -
  have w: "wf_hashmap (hashmap m)" using wf by (simp add: wf_map_def)
  have m': "m' = post_callback_tag_update ok key (hashmap_find (hashmap m) key) t m"
    unfolding m'_def key_def by (rule callback_scope_eq)
  note cp = commit_props[where key = key and ok = ok and t = t, OF wf refl]
  have len: "hash key (size_hm (hashmap m)) < length (table (hashmap m))"
    using w hash_less[of "size_hm (hashmap m)" key] by (simp add: wf_hashmap_def)
  have p1: "w_obj_tag (CallbackWrapper_new om oop_size m ob) = tag_for m key"
    unfolding key_def by (rule wrapper_reads_tag)
  have p2: "tag_for m key = 0 \<and> t \<noteq> 0 \<longrightarrow>
           hashmap_find (hashmap m') key = Some \<lparr>object = key, tag = t\<rparr> \<and>
           mset (entries (hashmap m')) = add_mset \<lparr>object = key, tag = t\<rparr> (mset (entries (hashmap m)))"
  proof
    assume a: "tag_for m key = 0 \<and> t \<noteq> 0"
    then have none: "hashmap_find (hashmap m) key = None"
      using tag_for_nonzero_iff[OF w, of key] by simp
    let ?e = "fst (create_entry key t m)"
    note c = create_entry_props[of key t m]
    have e: "?e = \<lparr>object = key, tag = t\<rparr>" using c(1) c(2) by (cases ?e) simp
    have fresh: "object ?e \<notin> object ` set (entries (hashmap m))"
      using none find_None_iff_wf[OF w] c(1) by simp
    have tg: "tag ?e \<noteq> 0" using a c(2) by simp
    have eq: "hashmap m' = hashmap_add ok (object ?e) ?e (hashmap m)"
      unfolding m' using none a c by (simp add: post_callback_tag_update_def Let_def split_beta)
    show "hashmap_find (hashmap m') key = Some \<lparr>object = key, tag = t\<rparr> \<and>
           mset (entries (hashmap m')) = add_mset \<lparr>object = key, tag = t\<rparr> (mset (entries (hashmap m)))"
      unfolding eq using find_after_add[OF w fresh tg, of ok key] add_props(2)[OF w fresh tg, of ok] c(1) e
      by simp
  qed
  have p3: "tag_for m key \<noteq> 0 \<and> t = 0 \<longrightarrow>
           (\<exists>e. hashmap_find (hashmap m) key = Some e \<and>
                hashmap_find (hashmap m') key = None \<and>
                mset (entries (hashmap m)) = add_mset e (mset (entries (hashmap m'))) \<and>
                (if free_entries_count m < max_free_entries m
                 then free_entries m' = e # free_entries m \<and>
                      free_entries_count m' = free_entries_count m + 1
                 else free_entries m' = free_entries m \<and>
                      free_entries_count m' = free_entries_count m))"
  proof
    assume a: "tag_for m key \<noteq> 0 \<and> t = 0"
    then obtain e where f: "hashmap_find (hashmap m) key = Some e"
      using tag_for_nonzero_iff[OF w, of key] by auto
    have eq: "m' = destroy_entry e (m\<lparr>hashmap := snd (hashmap_remove key (hashmap m))\<rparr>)"
      unfolding m' using f a by (simp add: post_callback_tag_update_def Let_def split_beta)
    have h: "hashmap m' = snd (hashmap_remove key (hashmap m))" unfolding eq by simp
    have "hashmap_find (hashmap m') key = None"
      unfolding h using find_after_remove[OF w f, of key] by simp
    moreover have "mset (entries (hashmap m)) = add_mset e (mset (entries (hashmap m')))"
      unfolding h by (rule remove_props(3)[OF w f])
    moreover have "(if free_entries_count m < max_free_entries m
                 then free_entries m' = e # free_entries m \<and>
                      free_entries_count m' = free_entries_count m + 1
                 else free_entries m' = free_entries m \<and>
                      free_entries_count m' = free_entries_count m)"
      unfolding eq by (simp add: destroy_entry_def)
    ultimately show "\<exists>e. hashmap_find (hashmap m) key = Some e \<and>
                hashmap_find (hashmap m') key = None \<and>
                mset (entries (hashmap m)) = add_mset e (mset (entries (hashmap m'))) \<and>
                (if free_entries_count m < max_free_entries m
                 then free_entries m' = e # free_entries m \<and>
                      free_entries_count m' = free_entries_count m + 1
                 else free_entries m' = free_entries m \<and>
                      free_entries_count m' = free_entries_count m)"
      using f by blast
  qed
  have p4: "tag_for m key \<noteq> 0 \<and> t \<noteq> 0 \<and> t \<noteq> tag_for m key \<longrightarrow>
           map (map object) (table (hashmap m')) = map (map object) (table (hashmap m)) \<and>
           entry_count (hashmap m') = entry_count (hashmap m) \<and>
           tag_for m' key = t \<and>
           (\<forall>k. k \<noteq> key \<longrightarrow> hashmap_find (hashmap m') k = hashmap_find (hashmap m) k) \<and>
           free_entries m' = free_entries m \<and> free_entries_count m' = free_entries_count m"
  proof
    assume a: "tag_for m key \<noteq> 0 \<and> t \<noteq> 0 \<and> t \<noteq> tag_for m key"
    then obtain e where f: "hashmap_find (hashmap m) key = Some e"
      using tag_for_nonzero_iff[OF w, of key] by auto
    have te: "tag_for m key = tag e" using f by (simp add: tag_for_def)
    have eq: "m' = m\<lparr>hashmap := entry_set_tag key t (hashmap m)\<rparr>"
      unfolding m' using f a te by (simp add: post_callback_tag_update_def)
    have "tag_for m' key = t" unfolding m' using cp(2)[of key] by simp
    moreover have "\<forall>k. k \<noteq> key \<longrightarrow> hashmap_find (hashmap m') k = hashmap_find (hashmap m) k"
      unfolding m' using cp(3) by blast
    ultimately show "map (map object) (table (hashmap m')) = map (map object) (table (hashmap m)) \<and>
           entry_count (hashmap m') = entry_count (hashmap m) \<and>
           tag_for m' key = t \<and>
           (\<forall>k. k \<noteq> key \<longrightarrow> hashmap_find (hashmap m') k = hashmap_find (hashmap m) k) \<and>
           free_entries m' = free_entries m \<and> free_entries_count m' = free_entries_count m"
      using entry_set_tag_shape[OF len, of t] by (simp add: eq)
  qed
  have p5: "t = tag_for m key \<longrightarrow> m' = m"
  proof
    assume a: "t = tag_for m key"
    show "m' = m"
    proof (cases "hashmap_find (hashmap m) key")
      case None
      then show ?thesis unfolding m' using a by (simp add: post_callback_tag_update_def tag_for_def)
    next
      case (Some e)
      then have "e \<in> set (entries (hashmap m))" using find_Some_iff_wf[OF w] by simp
      then have "tag e \<noteq> 0" using w by (simp add: wf_hashmap_def)
      then show ?thesis unfolding m' using a Some by (simp add: post_callback_tag_update_def tag_for_def)
    qed
  qed
  show ?thesis using p1 p2 p3 p4 p5 by blast
qed

theorem callback_scope_commit_witness:
  "tag_for full_pool_map 8 = 5 \<and>
   tag_for (callback_scope plain_objects two_words True 8 9 full_pool_map) 8 = 9 \<and>
   entry_count (hashmap (callback_scope plain_objects two_words True 8 9 full_pool_map)) = 1"
proof -
  have e: "entry_count (hashmap full_pool_map) = 1" by (simp add: full_pool_map_def one_tag_map_def)
  show ?thesis
    using callback_scope_commit[where om = plain_objects and oop_size = two_words and ob = 8
            and ok = True and t = 9, OF wf_full_pool_map]
    by (simp add: tag_for_full_pool_map e)
qed

text \<open>
  With the free list full, the entry of an object whose tag the callback cleared is removed
  from the table but is not put on the free list.
\<close>

theorem callback_scope_full_pool_counterexample:
  "wf_map full_pool_map \<and> tag_for full_pool_map 8 = 5 \<and>
   free_entries_count full_pool_map = max_free_entries full_pool_map \<and>
   tag_for (callback_scope plain_objects two_words True 8 0 full_pool_map) 8 = 0 \<and>
   free_entries (callback_scope plain_objects two_words True 8 0 full_pool_map)
     = free_entries full_pool_map \<and>
   \<lparr>object = 8, tag = 5\<rparr> \<notin> set (free_entries (callback_scope plain_objects two_words True 8 0 full_pool_map))"
proof -
  have f: "hashmap_find (hashmap full_pool_map) 8 = Some \<lparr>object = 8, tag = 5\<rparr>"
    using find_one_tag_map by (simp add: full_pool_map_def)
  have eq: "callback_scope plain_objects two_words True 8 0 full_pool_map
        = destroy_entry \<lparr>object = 8, tag = 5\<rparr>
            (full_pool_map\<lparr>hashmap := snd (hashmap_remove 8 (hashmap full_pool_map))\<rparr>)"
    unfolding callback_scope_eq using f by (simp add: post_callback_tag_update_def split_beta)
  have fr: "free_entries (callback_scope plain_objects two_words True 8 0 full_pool_map)
     = free_entries full_pool_map"
    unfolding eq by (simp add: destroy_entry_def full_pool_map_def one_tag_map_def)
  have t: "tag_for (callback_scope plain_objects two_words True 8 0 full_pool_map) 8 = 0"
    unfolding callback_scope_eq
    using commit_props(2)[where key = 8 and ok = True and t = 0 and k = 8, OF wf_full_pool_map refl] by simp
  have c: "free_entries_count full_pool_map = max_free_entries full_pool_map"
    by (simp add: full_pool_map_def one_tag_map_def)
  have n: "\<lparr>object = 8, tag = 5\<rparr> \<notin> set (free_entries full_pool_map)"
    by (simp add: full_pool_map_def)
  show ?thesis using wf_full_pool_map tag_for_full_pool_map fr t c n by simp
qed

text \<open>
  C3. One pass of \<open>do_weak_oops\<close> over a well-formed table runs to its end, whatever the
  collector's closures are. It hands every entry to \<open>is_alive\<close> exactly once, bucket by
  bucket in increasing index order and each chain from its head. The table it leaves holds
  exactly the entries whose object is alive, each once, with the object's new address and
  in the bucket of that address; the entries of dead objects are gone. The tags of the
  removed entries are posted, in the order of the scan, when the \<open>OBJECT_FREE\<close> event is
  enabled, and nothing is posted when it is not. An entry whose new bucket index is below
  the bucket being scanned is linked at the head of that bucket at once; one whose new
  index is above it is put on \<open>delayed_add\<close>, which at the end of the scan holds exactly
  those entries, and they are linked into the table only then.
\<close>

theorem do_weak_oops_pass:
  fixes pof :: bool and ia :: "oop \<Rightarrow> bool" and f :: "oop \<Rightarrow> oop" and m :: JvmtiTagMap
  assumes wf: "wf_map m"
  defines "T \<equiv> table (hashmap m)"
  defines "n \<equiv> size_hm (hashmap m)"
  shows "\<exists>s1 s.
     do_weak_oops pof ia f m = Some s \<and>
     is_alive_calls s = map object (entries (hashmap m)) \<and>
     distinct (is_alive_calls s) \<and>
     mset (entries_after s) = mset (survivors ia f (entries (hashmap m))) \<and>
     (\<forall>i < n. \<forall>x \<in> set (the_table s ! i). hash (object x) n = i) \<and>
     object_free_events s = (if pof then dead_tags ia (entries (hashmap m)) else []) \<and>
     scan_table pof ia f n [0..<n] (pass_start m) = Some s1 \<and>
     the_table s1 = foldl (link_at_head n) (stay_table ia f T n) (all_down ia f T n) \<and>
     delayed_add s1 = rev (all_up ia f T n) \<and>
     the_table s = foldl (link_at_head n) (the_table s1) (delayed_add s1) \<and>
     (\<forall>pos prev e nxt s0. ia (object e) \<and> hash (f (object e)) n < pos \<longrightarrow>
        scan_entry pof ia f n pos prev e nxt s0 =
          Some (prev, put_table (link_at_head n ((the_table s0)[pos := prev @ nxt]) (relocated f e))
                        (s0\<lparr>is_alive_calls := is_alive_calls s0 @ [object e]\<rparr>))) \<and>
     (\<forall>pos prev e nxt s0. ia (object e) \<and> pos < hash (f (object e)) n \<longrightarrow>
        scan_entry pof ia f n pos prev e nxt s0 =
          Some (prev, (put_table ((the_table s0)[pos := prev @ nxt])
                         (s0\<lparr>is_alive_calls := is_alive_calls s0 @ [object e]\<rparr>))
                        \<lparr>delayed_add := relocated f e # delayed_add s0\<rparr>))"
proof -
  have w: "wf_hashmap (hashmap m)" using wf by (simp add: wf_map_def)
  have n: "n = length T" using w by (simp add: wf_hashmap_def T_def n_def)
  have e: "entries (hashmap m) = concat T" by (simp add: entries_def T_def)
  obtain s1 s where p: "scan_table pof ia f (length T) [0..<length T] (pass_start m) = Some s1"
    "the_table s1 = foldl (link_at_head (length T)) (stay_table ia f T (length T))
                            (all_down ia f T (length T))"
    "delayed_add s1 = rev (all_up ia f T (length T))"
    "do_weak_oops pof ia f m = Some s"
    "the_table s = foldl (link_at_head (length T)) (the_table s1) (delayed_add s1)"
    "is_alive_calls s = map object (concat T)"
    "object_free_events s = (if pof then dead_tags ia (concat T) else [])"
    "mset (concat (the_table s)) = mset (survivors ia f (concat T))"
    "\<forall>i < length T. \<forall>x \<in> set (the_table s ! i). hash (object x) (length T) = i"
    using pass_props[OF wf, of pof ia f] unfolding T_def by blast
  have "do_weak_oops pof ia f m = Some s" by (rule p(4))
  moreover have "is_alive_calls s = map object (entries (hashmap m))" unfolding e by (rule p(6))
  moreover have "distinct (is_alive_calls s)"
    unfolding p(6) using w by (simp add: wf_hashmap_def e)
  moreover have "mset (entries_after s) = mset (survivors ia f (entries (hashmap m)))"
    unfolding e using p(8) by (simp add: entries_after_def entries_def the_table_def)
  moreover have "\<forall>i < n. \<forall>x \<in> set (the_table s ! i). hash (object x) n = i"
    unfolding n by (rule p(9))
  moreover have "object_free_events s = (if pof then dead_tags ia (entries (hashmap m)) else [])"
    unfolding e by (rule p(7))
  moreover have "scan_table pof ia f n [0..<n] (pass_start m) = Some s1" unfolding n by (rule p(1))
  moreover have "the_table s1 = foldl (link_at_head n) (stay_table ia f T n) (all_down ia f T n)"
    unfolding n by (rule p(2))
  moreover have "delayed_add s1 = rev (all_up ia f T n)" unfolding n by (rule p(3))
  moreover have "the_table s = foldl (link_at_head n) (the_table s1) (delayed_add s1)"
    unfolding n by (rule p(5))
  moreover have "\<forall>pos prev e nxt s0. ia (object e) \<and> hash (f (object e)) n < pos \<longrightarrow>
        scan_entry pof ia f n pos prev e nxt s0 =
          Some (prev, put_table (link_at_head n ((the_table s0)[pos := prev @ nxt]) (relocated f e))
                        (s0\<lparr>is_alive_calls := is_alive_calls s0 @ [object e]\<rparr>))"
    using scan_entry_down by blast
  moreover have "\<forall>pos prev e nxt s0. ia (object e) \<and> pos < hash (f (object e)) n \<longrightarrow>
        scan_entry pof ia f n pos prev e nxt s0 =
          Some (prev, (put_table ((the_table s0)[pos := prev @ nxt])
                         (s0\<lparr>is_alive_calls := is_alive_calls s0 @ [object e]\<rparr>))
                        \<lparr>delayed_add := relocated f e # delayed_add s0\<rparr>)"
    using scan_entry_up by blast
  ultimately show ?thesis
    by (intro exI[of _ s1] exI[of _ s] conjI) assumption+
qed

theorem do_weak_oops_pass_witness:
  "map_option is_alive_calls (do_weak_oops True nothing_alive not_moved one_tag_map) = Some [8] \<and>
   map_option object_free_events (do_weak_oops True nothing_alive not_moved one_tag_map) = Some [5] \<and>
   map_option entries_after (do_weak_oops True nothing_alive not_moved one_tag_map) = Some []"
proof -
  obtain s where p: "do_weak_oops True nothing_alive not_moved one_tag_map = Some s"
    "is_alive_calls s = map object (entries (hashmap one_tag_map))"
    "mset (entries_after s) = mset (survivors nothing_alive not_moved (entries (hashmap one_tag_map)))"
    "object_free_events s = (if True then dead_tags nothing_alive (entries (hashmap one_tag_map)) else [])"
    using do_weak_oops_pass[OF wf_one_tag_map, of True nothing_alive not_moved] by blast
  show ?thesis
    using p by (simp add: entries_one_tag_map survivors_def dead_tags_def nothing_alive_def)
qed

text \<open>
  With the \<open>OBJECT_FREE\<close> event disabled the entry of a dead object is removed and its tag
  is not posted.
\<close>

theorem do_weak_oops_event_disabled_counterexample:
  "entries (hashmap one_tag_map) = [\<lparr>object = 8, tag = 5\<rparr>] \<and>
   map_option entries_after (do_weak_oops False nothing_alive not_moved one_tag_map) = Some [] \<and>
   map_option object_free_events (do_weak_oops False nothing_alive not_moved one_tag_map) = Some []"
proof -
  obtain s1 s where p: "do_weak_oops False nothing_alive not_moved one_tag_map = Some s"
    "mset (concat (the_table s)) = mset (survivors nothing_alive not_moved (concat (table (hashmap one_tag_map))))"
    "object_free_events s = (if False then dead_tags nothing_alive (concat (table (hashmap one_tag_map))) else [])"
    using pass_props[OF wf_one_tag_map, of False nothing_alive not_moved] by blast
  have "entries_after s = []"
    using p(2) by (simp add: entries_after_def entries_def the_table_def survivors_def nothing_alive_def)
  then show ?thesis using p(1) p(3) by (simp add: entries_one_tag_map)
qed

text \<open>
  C2. Every tag map that \<open>set_tag\<close>, the wrapper scopes and the passes of \<open>do_weak_oops\<close>
  produce from a new one is well-formed: no two entries hold the same object and no entry
  holds the tag 0. In such a map \<open>set_tag\<close> with a non-zero tag on a tagged object leaves
  every chain with the same objects at the same places and the entry count as it was, and
  the object has the new tag: the entry is updated where it stands.
\<close>

theorem reachable_well_formed:
  assumes r: "reachable om oop_size m"
  shows "wf_map m \<and>
         distinct (map object (entries (hashmap m))) \<and>
         (\<forall>e \<in> set (entries (hashmap m)). tag e \<noteq> 0) \<and>
         (\<forall>ob t ok. t \<noteq> 0 \<and> tag_for m (klassOop_if_java_lang_Class om ob) \<noteq> 0 \<longrightarrow>
            map (map object) (table (hashmap (set_tag om ok ob t m)))
              = map (map object) (table (hashmap m)) \<and>
            entry_count (hashmap (set_tag om ok ob t m)) = entry_count (hashmap m) \<and>
            get_tag om (set_tag om ok ob t m) ob = t)"
proof -
  have wf: "wf_map m" using r by (rule reachable_wf)
  then have w: "wf_hashmap (hashmap m)" by (simp add: wf_map_def)
  have "get_tag om (set_tag om ok ob t m) ob = t" for ob t ok
    using set_tag_props(2)[OF wf, of om ok ob t "klassOop_if_java_lang_Class om ob"]
    by (simp add: get_tag_def)
  then show ?thesis
    using wf w set_tag_in_place(1,2)[OF wf] by (simp add: wf_hashmap_def)
qed

theorem reachable_well_formed_witness:
  "distinct (map object (entries (hashmap
      (set_tag plain_objects True 8 7 (set_tag plain_objects True 8 5 default_tag_map))))) \<and>
   get_tag plain_objects
      (set_tag plain_objects True 8 9
         (set_tag plain_objects True 8 7 (set_tag plain_objects True 8 5 default_tag_map))) 8 = 9"
proof -
  let ?m = "set_tag plain_objects True 8 7 (set_tag plain_objects True 8 5 default_tag_map)"
  have r: "reachable plain_objects two_words ?m"
    by (intro reachable.set_tag reachable.new[OF new_default])
  have "tag_for ?m (klassOop_if_java_lang_Class plain_objects 8) = 7"
    using set_tag_props(2)[where om = plain_objects and ok = True and ob = 8 and t = 7 and k = 8
            and m = "set_tag plain_objects True 8 5 default_tag_map",
            OF reachable_wf[where om = plain_objects and oop_size = two_words,
                 OF reachable.set_tag[OF reachable.new[OF new_default]]]]
    by simp
  then show ?thesis using reachable_well_formed[OF r] by simp
qed

text \<open>
  C5. An insertion of a new entry into a well-formed table that raises \<open>entry_count\<close>
  above \<open>resize_threshold\<close> with resizing enabled always succeeds: the entry is in the
  table afterwards and every other entry is kept. Below the largest size of \<open>sizes\<close> the
  table grows to the next size when the larger table is allocated, and every entry is
  rehashed into it; when that allocation fails the entry stays linked in the table of the
  old size and resizing is disabled. At the largest size the table is left at its size and
  resizing stays enabled. Once disabled, resizing is not enabled by \<open>set_tag\<close> or by the
  scope of a wrapper; every pass of \<open>do_weak_oops\<close> enables it. While resizing is disabled
  an insertion links the entry into the table as it is and the table does not grow,
  whatever the count.
\<close>

theorem insertion_over_threshold:
  fixes hm :: JvmtiTagHashmap and e :: JvmtiTagHashmapEntry and ok :: bool
  assumes wf: "wf_hashmap hm"
    and fresh: "hashmap_find hm (object e) = None" and tg: "tag e \<noteq> 0"
    and en: "resizing_enabled hm" and over: "entry_count hm + 1 > resize_threshold hm"
  defines "hm' \<equiv> hashmap_add ok (object e) e hm"
  shows "hashmap_find hm' (object e) = Some e \<and>
         mset (entries hm') = add_mset e (mset (entries hm)) \<and>
         entry_count hm' = entry_count hm + 1 \<and>
         (size_index hm < 10 \<and> ok \<longrightarrow>
            size_index hm' = size_index hm + 1 \<and>
            int (size_hm hm') = sizes ! (size_index hm + 1) \<and>
            size_hm hm < size_hm hm' \<and>
            table hm' = rehash (hm\<lparr>table := linked e hm\<rparr>) (size_hm hm') \<and>
            resizing_enabled hm') \<and>
         (size_index hm < 10 \<and> \<not> ok \<longrightarrow>
            size_hm hm' = size_hm hm \<and> size_index hm' = size_index hm \<and>
            table hm' = linked e hm \<and> \<not> resizing_enabled hm') \<and>
         (size_index hm = 10 \<longrightarrow>
            size_hm hm' = size_hm hm \<and> size_index hm' = size_index hm \<and>
            table hm' = linked e hm \<and> resizing_enabled hm') \<and>
         (\<forall>om malloc_ok ob t m. \<not> resizing_enabled (hashmap m) \<longrightarrow>
            \<not> resizing_enabled (hashmap (set_tag om malloc_ok ob t m))) \<and>
         (\<forall>om oop_size malloc_ok ob t m. \<not> resizing_enabled (hashmap m) \<longrightarrow>
            \<not> resizing_enabled (hashmap (callback_scope om oop_size malloc_ok ob t m))) \<and>
         (\<forall>om oop_size malloc_ok_referrer malloc_ok referrer ob writes m.
            \<not> resizing_enabled (hashmap m) \<longrightarrow>
            \<not> resizing_enabled (hashmap (two_oop_callback_scope om oop_size malloc_ok_referrer
                                            malloc_ok referrer ob writes m))) \<and>
         (\<forall>post_object_free is_alive f m. wf_map m \<longrightarrow>
            (\<exists>s. do_weak_oops post_object_free is_alive f m = Some s \<and>
                 resizing_enabled (hashmap (tag_map s)))) \<and>
         (\<forall>malloc_ok e0 hm0. \<not> resizing_enabled hm0 \<longrightarrow>
            size_hm (hashmap_add malloc_ok (object e0) e0 hm0) = size_hm hm0 \<and>
            size_index (hashmap_add malloc_ok (object e0) e0 hm0) = size_index hm0 \<and>
            table (hashmap_add malloc_ok (object e0) e0 hm0) = linked e0 hm0 \<and>
            \<not> resizing_enabled (hashmap_add malloc_ok (object e0) e0 hm0))"
proof -
  have fr: "object e \<notin> object ` set (entries hm)"
    using fresh find_None_iff_wf[OF wf] by simp
  have si: "size_index hm < 11" and sz: "int (size_hm hm) = sizes ! size_index hm"
    using wf by (simp_all add: wf_hashmap_def)
  let ?hm2 = "(if trace_threshold hm > 0 \<and> entry_count hm + 1 \<ge> trace_threshold hm
               then compute_next_trace_threshold else id)
                (hm\<lparr>table := linked e hm, entry_count := entry_count hm + 1\<rparr>)"
  have eq: "hm' = hashmap_resize ok ?hm2" unfolding hm'_def by (rule add_over_threshold[OF en over])
  have f2: "size_index ?hm2 = size_index hm" "size_hm ?hm2 = size_hm hm" "table ?hm2 = linked e hm"
    "resizing_enabled ?hm2 = resizing_enabled hm" "entry_count ?hm2 = entry_count hm + 1"
    "buckets ?hm2 = buckets (hm\<lparr>table := linked e hm\<rparr>)"
    by (simp_all add: compute_next_trace_threshold_def buckets_def)
  have p1: "hashmap_find hm' (object e) = Some e"
    unfolding hm'_def using find_after_add[OF wf fr tg, of ok "object e"] by simp
  have p2: "mset (entries hm') = add_mset e (mset (entries hm))"
    unfolding hm'_def by (rule add_props(2)[OF wf fr tg])
  have p3: "entry_count hm' = entry_count hm + 1"
    unfolding eq using f2(5) by (simp add: hashmap_resize_def Let_def)
  have p4: "size_index hm < 10 \<and> ok \<longrightarrow>
            size_index hm' = size_index hm + 1 \<and>
            int (size_hm hm') = sizes ! (size_index hm + 1) \<and>
            size_hm hm < size_hm hm' \<and>
            table hm' = rehash (hm\<lparr>table := linked e hm\<rparr>) (size_hm hm') \<and>
            resizing_enabled hm'"
  proof
    assume a: "size_index hm < 10 \<and> ok"
    then have nn: "\<not> sizes ! (size_index hm + 1) < 0" using sizes_last[OF si] by simp
    have g: "sizes ! size_index hm < sizes ! (size_index hm + 1)" using a sizes_grow by simp
    have r: "hm' = ?hm2\<lparr> table := rehash ?hm2 (nat (sizes ! (size_index hm + 1))),
                         size_index := size_index hm + 1,
                         size_hm := nat (sizes ! (size_index hm + 1)),
                         resize_threshold := load_factor ?hm2 (nat (sizes ! (size_index hm + 1))) \<rparr>"
      unfolding eq using a nn f2(1) by (simp add: hashmap_resize_def Let_def)
    have rh: "rehash ?hm2 k = rehash (hm\<lparr>table := linked e hm\<rparr>) k" for k
      unfolding rehash_def f2(6) ..
    show "size_index hm' = size_index hm + 1 \<and>
            int (size_hm hm') = sizes ! (size_index hm + 1) \<and>
            size_hm hm < size_hm hm' \<and>
            table hm' = rehash (hm\<lparr>table := linked e hm\<rparr>) (size_hm hm') \<and>
            resizing_enabled hm'"
      unfolding r using nn g sz en f2(4) rh by simp
  qed
  have p5: "size_index hm < 10 \<and> \<not> ok \<longrightarrow>
            size_hm hm' = size_hm hm \<and> size_index hm' = size_index hm \<and>
            table hm' = linked e hm \<and> \<not> resizing_enabled hm'"
  proof
    assume a: "size_index hm < 10 \<and> \<not> ok"
    then have nn: "\<not> sizes ! (size_index hm + 1) < 0" using sizes_last[OF si] by simp
    have r: "hm' = ?hm2\<lparr>resizing_enabled := False\<rparr>"
      unfolding eq using a nn f2(1) by (simp add: hashmap_resize_def Let_def)
    show "size_hm hm' = size_hm hm \<and> size_index hm' = size_index hm \<and>
            table hm' = linked e hm \<and> \<not> resizing_enabled hm'"
      unfolding r using f2 by simp
  qed
  have p6: "size_index hm = 10 \<longrightarrow>
            size_hm hm' = size_hm hm \<and> size_index hm' = size_index hm \<and>
            table hm' = linked e hm \<and> resizing_enabled hm'"
  proof
    assume a: "size_index hm = 10"
    then have nn: "sizes ! (size_index hm + 1) < 0" using sizes_last[OF si] by simp
    have r: "hm' = ?hm2" unfolding eq using nn f2(1) by (simp add: hashmap_resize_def Let_def)
    show "size_hm hm' = size_hm hm \<and> size_index hm' = size_index hm \<and>
            table hm' = linked e hm \<and> resizing_enabled hm'"
      unfolding r using f2 en by simp
  qed
  have p7: "\<forall>om malloc_ok ob t m. \<not> resizing_enabled (hashmap m) \<longrightarrow>
            \<not> resizing_enabled (hashmap (set_tag om malloc_ok ob t m))"
    using set_tag_never_enables by blast
  have p8: "\<forall>om oop_size malloc_ok ob t m. \<not> resizing_enabled (hashmap m) \<longrightarrow>
            \<not> resizing_enabled (hashmap (callback_scope om oop_size malloc_ok ob t m))"
    using callback_scope_never_enables by blast
  have p9: "\<forall>om oop_size malloc_ok_referrer malloc_ok referrer ob writes m.
            \<not> resizing_enabled (hashmap m) \<longrightarrow>
            \<not> resizing_enabled (hashmap (two_oop_callback_scope om oop_size malloc_ok_referrer
                                            malloc_ok referrer ob writes m))"
    using two_oop_scope_never_enables by blast
  have p10: "\<forall>post_object_free is_alive f m. wf_map m \<longrightarrow>
            (\<exists>s. do_weak_oops post_object_free is_alive f m = Some s \<and>
                 resizing_enabled (hashmap (tag_map s)))"
    using do_weak_oops_enables by blast
  have p11: "\<forall>malloc_ok e0 hm0. \<not> resizing_enabled hm0 \<longrightarrow>
            size_hm (hashmap_add malloc_ok (object e0) e0 hm0) = size_hm hm0 \<and>
            size_index (hashmap_add malloc_ok (object e0) e0 hm0) = size_index hm0 \<and>
            table (hashmap_add malloc_ok (object e0) e0 hm0) = linked e0 hm0 \<and>
            \<not> resizing_enabled (hashmap_add malloc_ok (object e0) e0 hm0)"
    using disabled_table_keeps_size by blast
  show ?thesis using p1 p2 p3 p4 p5 p6 p7 p8 p9 p10 p11 by (intro conjI) assumption+
qed



theorem insertion_over_threshold_witness:
  "size_hm (full_hashmap 0) = 4801 \<and>
   size_hm (hashmap_add True (object (full_entry 19204)) (full_entry 19204) (full_hashmap 0)) = 76831 \<and>
   resizing_enabled (hashmap_add True (object (full_entry 19204)) (full_entry 19204) (full_hashmap 0)) \<and>
   size_hm (hashmap_add False (object (full_entry 19204)) (full_entry 19204) (full_hashmap 0)) = 4801 \<and>
   \<not> resizing_enabled (hashmap_add False (object (full_entry 19204)) (full_entry 19204) (full_hashmap 0)) \<and>
   hashmap_find (hashmap_add False (object (full_entry 19204)) (full_entry 19204) (full_hashmap 0))
     (object (full_entry 19204)) = Some (full_entry 19204)"
proof -
  have i: "(0::nat) < 11" by simp
  note fl = full_hashmap_fields[OF i]
  have fr: "hashmap_find (full_hashmap 0) (object (full_entry 19204)) = None"
    using full_hashmap_fresh[OF i] by (simp add: sizes_at)
  have tg: "tag (full_entry 19204) \<noteq> 0" by (simp add: full_entry_def)
  have ov: "entry_count (full_hashmap 0) + 1 > resize_threshold (full_hashmap 0)"
    by (simp add: fl)
  have fi: "fills (nat (sizes ! 0))" by (simp add: sizes_at fills_4801)
  note t = insertion_over_threshold[OF wf_full_hashmap[OF i fi] fr tg fl(5) ov, of True]
  note f = insertion_over_threshold[OF wf_full_hashmap[OF i fi] fr tg fl(5) ov, of False]
  have a: "int (size_hm (hashmap_add True (object (full_entry 19204)) (full_entry 19204) (full_hashmap 0))) = 76831"
    and b: "resizing_enabled (hashmap_add True (object (full_entry 19204)) (full_entry 19204) (full_hashmap 0))"
    using t by (simp_all add: fl(2) sizes_at)
  have c: "size_hm (hashmap_add False (object (full_entry 19204)) (full_entry 19204) (full_hashmap 0)) = 4801"
    and d: "\<not> resizing_enabled (hashmap_add False (object (full_entry 19204)) (full_entry 19204) (full_hashmap 0))"
    and e: "hashmap_find (hashmap_add False (object (full_entry 19204)) (full_entry 19204) (full_hashmap 0))
              (object (full_entry 19204)) = Some (full_entry 19204)"
    using f by (simp_all add: fl(1) fl(2) sizes_at)
  show ?thesis using a b c d e by (simp add: fl(1) sizes_at)
qed

text \<open>
  At the largest size an insertion raises the count above the threshold with resizing
  enabled, and the table does not grow. The threshold is the one the code computes for
  the size, \<open>(int)(4.0f * 78643219)\<close>.
\<close>

theorem insertion_at_largest_size_counterexample:
  "wf_hashmap (full_hashmap 10) \<and>
   size_hm (full_hashmap 10) = 78643219 \<and>
   resize_threshold (full_hashmap 10) = 314572864 \<and>
   entry_count (full_hashmap 10) = resize_threshold (full_hashmap 10) \<and>
   resizing_enabled (full_hashmap 10) \<and>
   hashmap_find (full_hashmap 10) (object (full_entry 314572876)) = None \<and>
   resize_threshold (full_hashmap 10)
     < entry_count (hashmap_add True (object (full_entry 314572876)) (full_entry 314572876) (full_hashmap 10)) \<and>
   size_hm (hashmap_add True (object (full_entry 314572876)) (full_entry 314572876) (full_hashmap 10))
     = 78643219 \<and>
   resizing_enabled (hashmap_add True (object (full_entry 314572876)) (full_entry 314572876) (full_hashmap 10))"
proof -
  have i: "(10::nat) < 11" by simp
  note fl = full_hashmap_fields[OF i]
  have fr: "hashmap_find (full_hashmap 10) (object (full_entry 314572876)) = None"
    using full_hashmap_fresh[OF i] by (simp add: sizes_at)
  have eq: "hashmap_add True (object (full_entry 314572876)) (full_entry 314572876) (full_hashmap 10)
        = hashmap_resize True
           ((if trace_threshold (full_hashmap 10) > 0
                  \<and> entry_count (full_hashmap 10) + 1 \<ge> trace_threshold (full_hashmap 10)
               then compute_next_trace_threshold else id)
                ((full_hashmap 10)\<lparr>table := linked (full_entry 314572876) (full_hashmap 10),
                                   entry_count := entry_count (full_hashmap 10) + 1\<rparr>))"
    by (rule add_over_threshold) (simp_all add: fl)
  have l: "sizes ! 11 < 0" by (simp add: sizes_def)
  have r: "hashmap_resize True hm = hm" if "size_index hm = 10" for hm
    using that l by (simp add: hashmap_resize_def Let_def)
  have "trace_threshold (full_hashmap 10) = -1" by (simp add: full_hashmap_def Let_def)
  then have eq2: "hashmap_add True (object (full_entry 314572876)) (full_entry 314572876) (full_hashmap 10)
        = (full_hashmap 10)\<lparr>table := linked (full_entry 314572876) (full_hashmap 10),
                            entry_count := entry_count (full_hashmap 10) + 1\<rparr>"
    unfolding eq by (simp add: r fl(2))
  have fi: "fills (nat (sizes ! 10))" by (simp add: sizes_at fills_largest)
  show ?thesis
    unfolding eq2 using wf_full_hashmap[OF i fi] fr by (simp add: fl sizes_at)
qed

text \<open>
  C10. \<open>get_objects_with_tags\<close> matches every entry against every element of the requested
  tags in order and appends one pair of object and tag for each element that matches: an
  entry contributes its object as many times as its tag occurs in the request, and the
  returned count is the sum of these numbers. For the request that holds the tag 5 \<open>k\<close>
  times and the store whose one entry has the tag 5, the entry's object is in the result
  \<open>k\<close> times and the count is \<open>k\<close>.
\<close>

theorem get_objects_with_tags_repeats:
  "object_results (entry_iterate om hm (TagObjectCollector_new tags))
     = concat (map (\<lambda>e. replicate (count_list tags (tag e)) (mirror_of om (object e)))
                   (concat (buckets hm))) \<and>
   tag_results (entry_iterate om hm (TagObjectCollector_new tags))
     = concat (map (\<lambda>e. replicate (count_list tags (tag e)) (tag e)) (concat (buckets hm))) \<and>
   fst (get_objects_with_tags om (Some a1) (Some a2) tags count_ptr (Some orp) (Some trp) m mem)
     = JVMTI_ERROR_NONE \<and>
   counts (snd (get_objects_with_tags om (Some a1) (Some a2) tags count_ptr (Some orp) (Some trp) m mem))
      count_ptr
     = Some (int (sum_list (map (\<lambda>e. count_list tags (tag e)) (concat (buckets (hashmap m)))))) \<and>
   object_buffers
      (snd (get_objects_with_tags om (Some a1) (Some a2) tags count_ptr (Some orp) (Some trp) m mem)) a1
     = Some (object_results (entry_iterate om (hashmap m) (TagObjectCollector_new tags))) \<and>
   object_results (entry_iterate plain_objects (hashmap one_tag_map)
                     (TagObjectCollector_new (replicate k 5)))
     = replicate k 8 \<and>
   counts (snd (get_objects_with_tags plain_objects (Some a1) (Some a2) (replicate k 5) count_ptr
                  (Some orp) (Some trp) one_tag_map mem)) count_ptr
     = Some (int k)"
proof -
  have c: "counts (snd (get_objects_with_tags om' (Some a1) (Some a2) tags' count_ptr (Some orp) (Some trp) m' mem))
      count_ptr
     = Some (int (sum_list (map (\<lambda>e. count_list tags' (tag e)) (concat (buckets (hashmap m'))))))"
    for om' tags' m'
    unfolding get_objects_with_tags_def result_success entry_iterate_results
    by (simp add: length_concat_replicate)
  have o: "object_results (entry_iterate plain_objects (hashmap one_tag_map)
                     (TagObjectCollector_new (replicate k 5))) = replicate k 8"
    unfolding entry_iterate_results buckets_one_tag_map
    by (simp add: count_list_replicate mirror_of_def plain_objects_def)
  have k: "counts (snd (get_objects_with_tags plain_objects (Some a1) (Some a2) (replicate k 5) count_ptr
                  (Some orp) (Some trp) one_tag_map mem)) count_ptr = Some (int k)"
    unfolding c buckets_one_tag_map by (simp add: count_list_replicate)
  have f: "fst (get_objects_with_tags om (Some a1) (Some a2) tags count_ptr (Some orp) (Some trp) m mem)
     = JVMTI_ERROR_NONE"
    unfolding get_objects_with_tags_def result_success by simp
  have b: "object_buffers
      (snd (get_objects_with_tags om (Some a1) (Some a2) tags count_ptr (Some orp) (Some trp) m mem)) a1
     = Some (object_results (entry_iterate om (hashmap m) (TagObjectCollector_new tags)))"
    unfolding get_objects_with_tags_def result_success by simp
  show ?thesis using entry_iterate_results[of om hm tags] c[of om tags m] o k f b
    by (intro conjI) assumption+
qed

text \<open>
  C6. In \<open>result\<close>, when the buffer for the objects is allocated and the allocation of the
  buffer for the tags fails, the error is returned, but \<open>Deallocate\<close> is called on the
  address of the caller's pointer variable and not on the buffer it points to: the buffer
  at 36864 stays allocated, and the address 28680 of the variable, which is no block, is
  what was released.
\<close>

theorem result_releases_wrong_pointer:
  "get_objects_with_tags plain_objects (Some 36864) None [5] 28672 (Some 28680) (Some 28688)
     one_tag_map empty_memory
   = (JVMTI_ERROR_OUT_OF_MEMORY,
      empty_memory\<lparr> blocks := [36864 \<mapsto> 8], pointers := [28680 \<mapsto> 36864],
                    object_buffers := [36864 \<mapsto> [8]], bad_frees := [28680] \<rparr>)"
proof -
  have o: "object_results (entry_iterate plain_objects (hashmap one_tag_map) (TagObjectCollector_new [5])) = [8]"
    unfolding entry_iterate_results buckets_one_tag_map
    by (simp add: mirror_of_def plain_objects_def)
  have ne: "(36864 :: address) \<noteq> 28680" by simp
  have nb: "(28680 :: address) \<notin> dom (blocks empty_memory)" by (simp add: empty_memory_def)
  show ?thesis
    unfolding get_objects_with_tags_def result_second_allocation_fails[OF ne nb] o
    by (simp add: empty_memory_def)
qed

text \<open>
  Claim C9. In a basic walk, when the object reference callback has returned for an edge
  from \<open>referrer\<close> to \<open>referree\<close>, the next report for the same referrer hands the callback
  the cached referrer tag, and that is: for a self-referential edge the value the callback
  just left in the tag slot, and for any other edge the referrer tag that was handed to the
  callback, which is the one read before it ran.
\<close>

theorem self_reference_caches_written_tag:
  fixes w :: "'u heap_walk"
  shows
  "or_referrer_tag (last (object_reference_reports (snd
       (invoke_basic_object_reference_callback om oop_size malloc_ok cb2 kind2 referrer referree2 index2
          (snd (invoke_basic_object_reference_callback om oop_size malloc_ok cb kind referrer referree
                  index w))))))
   = (if referrer = referree
      then fst (snd (cb (last (object_reference_reports (snd (invoke_basic_object_reference_callback
                  om oop_size malloc_ok cb kind referrer referree index w)))) (user_data w)))
      else or_referrer_tag (last (object_reference_reports (snd (invoke_basic_object_reference_callback
                  om oop_size malloc_ok cb kind referrer referree index w)))))
   \<and> or_referrer_tag (last (object_reference_reports (snd (invoke_basic_object_reference_callback
                  om oop_size malloc_ok cb kind referrer referree index w))))
     = (if referrer = last_referrer w then last_referrer_tag w
        else tag_for (walk_tags w) (klassOop_if_java_lang_Class om referrer))"
proof -
  let ?w1 = "snd (invoke_basic_object_reference_callback om oop_size malloc_ok cb kind referrer referree index w)"
  have "or_referrer_tag (last (object_reference_reports (snd
       (invoke_basic_object_reference_callback om oop_size malloc_ok cb2 kind2 referrer referree2 index2 ?w1))))
      = last_referrer_tag ?w1"
    using invoke_basic_cache(3)[of om oop_size malloc_ok cb2 kind2 referrer referree2 index2 ?w1]
    by (simp add: invoke_basic_cache(1))
  then show ?thesis
    using invoke_basic_cache(2)[of om oop_size malloc_ok cb kind referrer referree index w]
      invoke_basic_cache(3)[of om oop_size malloc_ok cb kind referrer referree index w]
    by simp
qed

theorem self_reference_caches_written_tag_witness:
  "or_referrer_tag (last (object_reference_reports (snd
       (invoke_basic_object_reference_callback plain_objects two_words always_ok tag_with_9
          JVMTI_REFERENCE_FIELD 8 16 1
          (snd (invoke_basic_object_reference_callback plain_objects two_words always_ok tag_with_9
                  JVMTI_REFERENCE_FIELD 8 8 0 fresh_walk)))))) = 9"
  using self_reference_caches_written_tag[of plain_objects two_words always_ok tag_with_9
      JVMTI_REFERENCE_FIELD 8 16 1 tag_with_9 JVMTI_REFERENCE_FIELD 8 0 fresh_walk]
  by (simp add: tag_with_9_def)


text \<open>
  Claim C7. In an advanced walk, an object whose class is not the class \<open>C\<close> of the class
  filter, or that the heap filter rejects, is not reported, whichever of the three functions
  that call the heap reference callback is asked to report it: the function returns \<open>true\<close>,
  the callback is not called (the log of its calls and the agent's data are unchanged), and
  the object is pushed on the visit stack if it is not visited. The same holds of the
  reports that an advanced walk makes of a reference, of a simple root, of a stack local
  and of a JNI local, which come to these three functions.
\<close>

theorem filtered_object_not_reported_but_pushed:
  fixes w :: "'u heap_walk"
  assumes "klass_filter context = Some C \<and> klass om obj \<noteq> C \<or> rejected J om oop_size context w obj"
  shows "suppressed w obj
           (invoke_advanced_object_reference_callback J om oop_size malloc_ok context ref_kind referrer
              obj index w)
       \<and> suppressed w obj
           (invoke_advanced_heap_root_callback J om oop_size malloc_ok context root_kind obj w)
       \<and> suppressed w obj
           (invoke_advanced_stack_ref_callback J om oop_size malloc_ok context stack_kind thread_tag tid
              depth jmethod bci slot obj w)
       \<and> (\<forall>op. is_advanced_heap_walk op \<and> jvmti op = J \<and> objects op = om \<and> object_size op = oop_size
                \<and> advanced_context op = context \<longrightarrow>
              suppressed w obj (report_object_reference op basic_kind ref_kind referrer obj index w)
              \<and> suppressed w obj (report_simple_root op root_kind obj w)
              \<and> suppressed w obj
                    (report_stack_ref_root op thread_tag tid depth jmethod bci slot obj w)
              \<and> suppressed w obj (report_jni_local_root op thread_tag tid depth jmethod obj w))"
proof -
  have r: "rejected J om oop_size context w obj"
    using assms by (auto simp: rejected_def is_filtered_by_klass_filter_def)
  have "suppressed w obj (report_object_reference op basic_kind ref_kind referrer obj index w)
        \<and> suppressed w obj (report_simple_root op root_kind obj w)
        \<and> suppressed w obj (report_stack_ref_root op thread_tag tid depth jmethod bci slot obj w)
        \<and> suppressed w obj (report_jni_local_root op thread_tag tid depth jmethod obj w)"
    if "is_advanced_heap_walk op" "jvmti op = J" "objects op = om" "object_size op = oop_size"
      "advanced_context op = context" for op :: "'u VM_HeapWalkOperation"
    using suppressed_reports[of op w obj] that r by simp
  then show ?thesis
    using r by (simp add: suppressed_object_reference suppressed_heap_root suppressed_stack_ref)
qed

theorem filtered_object_not_reported_but_pushed_witness:
  "klass_filter only_class_24 = Some 24 \<and> klass plain_objects 8 \<noteq> 24
   \<and> suppressed fresh_walk 8
       (invoke_advanced_object_reference_callback jvmti_values plain_objects two_words always_ok
          only_class_24 JVMTI_HEAP_REFERENCE_FIELD 16 8 0 fresh_walk)
   \<and> visit_stack (snd (invoke_advanced_object_reference_callback jvmti_values plain_objects two_words
          always_ok only_class_24 JVMTI_HEAP_REFERENCE_FIELD 16 8 0 fresh_walk)) = [8]
   \<and> user_data (snd (invoke_advanced_object_reference_callback jvmti_values plain_objects two_words
          always_ok only_class_24 JVMTI_HEAP_REFERENCE_FIELD 16 8 0 fresh_walk)) = 0"
proof -
  have h: "klass_filter only_class_24 = Some 24 \<and> klass plain_objects 8 \<noteq> 24"
    by (simp add: only_class_24_def plain_objects_def)
  have v: "\<not> visited fresh_walk 8"
    by (simp add: visited_def fresh_walk_def is_marked_def prototype_def)
  have u: "user_data fresh_walk = 0" "visit_stack fresh_walk = []"
    by (simp_all add: fresh_walk_def)
  show ?thesis
    using filtered_object_not_reported_but_pushed[of only_class_24 24 plain_objects 8 jvmti_values
        two_words fresh_walk always_ok JVMTI_HEAP_REFERENCE_FIELD 16 0
        JVMTI_HEAP_REFERENCE_OTHER JVMTI_HEAP_REFERENCE_STACK_LOCAL 0 0 0 0 0 0] h v u
    by (simp add: suppressed_def)
qed




end
